theory Spec2Isabelle
  imports Complex_Main "HOL-Library.Word" "HOL-Library.Multiset"
begin

unbundle bit_operations_syntax

section \<open>Buffers\<close>

text \<open>
  A Node \<open>Buffer\<close> is a list of bytes. The \<open>read...\<close> methods of a Buffer throw a
  \<open>RangeError\<close> when the bytes they need are not all inside the buffer; an index
  expression \<open>data[i]\<close> outside the buffer is \<open>undefined\<close>, which the bitwise
  operators of JavaScript read as 0. JavaScript numbers that hold lengths, offsets,
  types and identifiers are natural numbers here; dBm values are binary64 numbers
  (section Numbers).

  \<open>u16be\<close>, \<open>u32be\<close>, \<open>u64be\<close>, \<open>i8\<close> and \<open>i16be\<close> are the values that the
  \<open>read...\<close> methods return for bytes inside the buffer. Where the source tests the
  bounds before it reads, the model writes the read with them under the same test; a read
  that the source makes with no such test goes through \<open>readUInt16BE\<close>, which returns
  the \<open>RangeError\<close>.
\<close>

type_synonym byte = "8 word"
type_synonym bytes = "byte list"

datatype error = RangeError

definition bindE :: "error + 'a \<Rightarrow> ('a \<Rightarrow> error + 'b) \<Rightarrow> error + 'b" where
  "bindE m f = (case m of Inl e \<Rightarrow> Inl e | Inr v \<Rightarrow> f v)"

lemma bindE_cong [fundef_cong]:
  "m = m' \<Longrightarrow> (\<And>v. m' = Inr v \<Longrightarrow> f v = f' v) \<Longrightarrow> bindE m f = bindE m' f'"
  by (cases m') (simp_all add: bindE_def)

fun mapE :: "('a \<Rightarrow> error + 'b) \<Rightarrow> 'a list \<Rightarrow> error + 'b list" where
  "mapE f [] = Inr []"
| "mapE f (x # xs) = bindE (f x) (\<lambda>y. bindE (mapE f xs) (\<lambda>ys. Inr (y # ys)))"

definition byteAt :: "bytes \<Rightarrow> nat \<Rightarrow> nat" where
  "byteAt d i = (if i < length d then unat (d ! i) else 0)"

definition u16be :: "bytes \<Rightarrow> nat \<Rightarrow> nat" where
  "u16be d off = unat (d ! off) * 256 + unat (d ! (off + 1))"

definition u32be :: "bytes \<Rightarrow> nat \<Rightarrow> nat" where
  "u32be d off = u16be d off * 65536 + u16be d (off + 2)"

definition u64be :: "bytes \<Rightarrow> nat \<Rightarrow> nat" where
  "u64be d off = u32be d off * 4294967296 + u32be d (off + 4)"

definition i8 :: "bytes \<Rightarrow> nat \<Rightarrow> int" where
  "i8 d off = sint (d ! off)"

definition i16be :: "bytes \<Rightarrow> nat \<Rightarrow> int" where
  "i16be d off = (if u16be d off < 32768 then int (u16be d off) else int (u16be d off) - 65536)"

definition readUInt16BE :: "bytes \<Rightarrow> nat \<Rightarrow> error + nat" where
  "readUInt16BE d off = (if off + 2 \<le> length d then Inr (u16be d off) else Inl RangeError)"

definition slice :: "bytes \<Rightarrow> nat \<Rightarrow> nat \<Rightarrow> bytes" where
  "slice d s e = take (e - s) (drop s d)"

definition writeUInt8 :: "nat \<Rightarrow> error + bytes" where
  "writeUInt8 v = (if v < 256 then Inr [of_nat v] else Inl RangeError)"

definition writeUInt16BE :: "nat \<Rightarrow> error + bytes" where
  "writeUInt16BE v =
     (if v < 65536 then Inr [of_nat (v div 256), of_nat (v mod 256)] else Inl RangeError)"

definition writeUInt32BE :: "nat \<Rightarrow> error + bytes" where
  "writeUInt32BE v =
     (if v < 4294967296
      then Inr [of_nat (v div 16777216), of_nat (v div 65536 mod 256),
                of_nat (v div 256 mod 256), of_nat (v mod 256)]
      else Inl RangeError)"

section \<open>Numbers\<close>

text \<open>
  A dBm value is a JavaScript number, an IEEE-754 binary64 value. A number that is not NaN
  is a \<open>double\<close>: \<open>Finite m e\<close> stands for \<open>m * 2 ^ e\<close> and is kept with an odd
  mantissa, zero as \<open>Finite 0 0\<close> (the sign of a zero decides nothing in the code
  modelled here: \<open>Math.abs\<close>, \<open><\<close>, \<open>||\<close>, the sign test of the sort and the
  clamp of \<open>Math.round\<close> read both zeros alike). A \<open>jsNumber\<close> is a double or NaN.

  An arithmetic operation returns the exact result rounded to the nearest binary64 value,
  ties to the even mantissa. \<open>roundRatio a b e\<close> is that rounding of
  \<open>(a / b) * 2 ^ e\<close> for \<open>b > 0\<close>: with \<open>lg\<close> the floor of the binary logarithm of
  the magnitude, the result is a multiple of \<open>2 ^ q\<close> for \<open>q = max (lg - 52) (- 1074)\<close>
  (53 bits of mantissa, gradual underflow), namely the nearest one, and a magnitude of
  \<open>2 ^ 1024\<close> or more after rounding is an infinity.
\<close>

datatype double = Finite int int | PosInf | NegInf

datatype jsNumber = NaN | Number double

function bitLength :: "nat \<Rightarrow> nat" where
  "bitLength n = (if n = 0 then 0 else 1 + bitLength (n div 2))"
  by pat_completeness auto
termination
  by (relation "measure (\<lambda>n. n)") auto

declare bitLength.simps [simp del]

function trim :: "int \<Rightarrow> int \<Rightarrow> double" where
  "trim m e = (if m = 0 then Finite 0 0
               else if even m then trim (m div 2) (e + 1)
               else Finite m e)"
  by pat_completeness auto
termination
  by (relation "measure (\<lambda>(m, e). nat \<bar>m\<bar>)") auto

declare trim.simps [simp del]

text \<open>The floor of the binary logarithm of \<open>A / b\<close>, for positive \<open>A\<close> and \<open>b\<close>.\<close>

definition floorLog2 :: "int \<Rightarrow> int \<Rightarrow> int" where
  "floorLog2 A b =
     (let d = int (bitLength (nat A)) - int (bitLength (nat b))
      in if (if d \<ge> 0 then b * 2 ^ nat d \<le> A else b \<le> A * 2 ^ nat (- d))
         then d else d - 1)"

definition quantum :: "int \<Rightarrow> int \<Rightarrow> int \<Rightarrow> int" where
  "quantum A b e = max (floorLog2 A b + e - 52) (- 1074)"

text \<open>\<open>num / den\<close> rounded to the nearest integer, a tie to the even one.\<close>

definition roundQuotient :: "int \<Rightarrow> int \<Rightarrow> int" where
  "roundQuotient num den =
     (let n0 = num div den;
          r = num mod den
      in if 2 * r > den \<or> (2 * r = den \<and> odd n0) then n0 + 1 else n0)"

definition scaledQuotient :: "int \<Rightarrow> int \<Rightarrow> int \<Rightarrow> int" where
  "scaledQuotient A b s =
     (if s \<ge> 0 then roundQuotient (A * 2 ^ nat s) b
      else roundQuotient A (b * 2 ^ nat (- s)))"

definition pack :: "bool \<Rightarrow> int \<Rightarrow> int \<Rightarrow> double" where
  "pack neg n q =
     (if q > 971 \<or> (q = 971 \<and> n \<ge> 2 ^ 53)
      then (if neg then NegInf else PosInf)
      else trim (if neg then - n else n) q)"

definition roundRatio :: "int \<Rightarrow> int \<Rightarrow> int \<Rightarrow> double" where
  "roundRatio a b e =
     (if a = 0 then Finite 0 0
      else pack (a < 0) (scaledQuotient \<bar>a\<bar> b (e - quantum \<bar>a\<bar> b e))
             (quantum \<bar>a\<bar> b e))"

text \<open>\<open>x - y\<close>: the two mantissas are brought to the smaller exponent and subtracted.\<close>

fun numberSub :: "double \<Rightarrow> double \<Rightarrow> jsNumber" where
  "numberSub (Finite m1 e1) (Finite m2 e2) =
     Number (roundRatio (m1 * 2 ^ nat (e1 - min e1 e2) - m2 * 2 ^ nat (e2 - min e1 e2)) 1
               (min e1 e2))"
| "numberSub (Finite m e) PosInf = Number NegInf"
| "numberSub (Finite m e) NegInf = Number PosInf"
| "numberSub PosInf PosInf = NaN"
| "numberSub PosInf y = Number PosInf"
| "numberSub NegInf NegInf = NaN"
| "numberSub NegInf y = Number NegInf"

fun mathAbs :: "jsNumber \<Rightarrow> jsNumber" where
  "mathAbs NaN = NaN"
| "mathAbs (Number (Finite m e)) = Number (Finite \<bar>m\<bar> e)"
| "mathAbs (Number PosInf) = Number PosInf"
| "mathAbs (Number NegInf) = Number PosInf"

fun doubleLess :: "double \<Rightarrow> double \<Rightarrow> bool" where
  "doubleLess (Finite m1 e1) (Finite m2 e2) =
     (m1 * 2 ^ nat (e1 - min e1 e2) < m2 * 2 ^ nat (e2 - min e1 e2))"
| "doubleLess (Finite m e) PosInf = True"
| "doubleLess NegInf (Finite m e) = True"
| "doubleLess NegInf PosInf = True"
| "doubleLess x y = False"

text \<open>\<open>x < y\<close>: a comparison with NaN is false.\<close>

fun numberLess :: "jsNumber \<Rightarrow> jsNumber \<Rightarrow> bool" where
  "numberLess (Number x) (Number y) = doubleLess x y"
| "numberLess x y = False"

text \<open>\<open>x > 0\<close>.\<close>

fun isPositive :: "jsNumber \<Rightarrow> bool" where
  "isPositive (Number (Finite m e)) = (m > 0)"
| "isPositive (Number PosInf) = True"
| "isPositive x = False"

text \<open>
  \<open>Math.round\<close> of the finite number \<open>m * 2 ^ e\<close>: the nearest integer, a half towards
  plus infinity.
\<close>

definition mathRound :: "int \<Rightarrow> int \<Rightarrow> int" where
  "mathRound m e =
     (if e \<ge> 0 then m * 2 ^ nat e
      else (m + 2 ^ (nat (- e) - 1)) div 2 ^ nat (- e))"

section \<open>Reader state\<close>

record powerEntry =
  index :: nat
  powerDbm :: double

record tag =
  epc :: "string option"
  antenna :: "nat option"
  rssi :: "int option"
  timestamp :: "nat option"
  seenCount :: "nat option"

datatype event = Connected | Ready | Tag tag

record config =
  antennas :: "nat list"
  antennaPowerDbm :: "nat \<rightharpoonup> jsNumber"
  reconnectInterval :: nat
  enableReconnect :: bool

record reader =
  cfg :: config
  socket :: bool
  messageId :: nat
  buffer :: bytes
  connected :: bool
  shouldReconnect :: bool
  reconnectTimer :: bool
  isShuttingDown :: bool
  configStarted :: bool
  rospecStarted :: bool
  powerTable :: "powerEntry list"
  antennaPowerIndex :: "nat \<rightharpoonup> nat"
  hopTableIds :: "nat list"
  hopTableId :: nat
  written :: "bytes list"
  emitted :: "event list"

section \<open>Power index\<close>

text \<open>
  The \<open>for ... of\<close> loop of \<open>findClosestPowerIndex\<close>, with its two loop variables. The
  difference \<open>Math.abs(entry.powerDbm - desiredDbm)\<close> and the test \<open>diff < minDiff\<close> are
  those of the binary64 numbers.
\<close>

fun closestLoop :: "powerEntry list \<Rightarrow> double \<Rightarrow> powerEntry \<Rightarrow> jsNumber \<Rightarrow> powerEntry" where
  "closestLoop [] desiredDbm closest minDiff = closest"
| "closestLoop (entry # rest) desiredDbm closest minDiff =
     (let diff = mathAbs (numberSub (powerDbm entry) desiredDbm)
      in if numberLess diff minDiff then closestLoop rest desiredDbm entry diff
         else closestLoop rest desiredDbm closest minDiff)"

text \<open>
  The target is a number that is not NaN: the one call passes \<open>antennaPowerDbm[ant] || 30\<close>.
  On an empty table \<open>Math.min(Math.max(1, Math.round(desiredDbm)), 100)\<close> is an integer
  from 1 to 100, also for an infinite target.
\<close>

definition findClosestPowerIndex :: "powerEntry list \<Rightarrow> double \<Rightarrow> nat" where
  "findClosestPowerIndex table desiredDbm =
     (if length table = 0
      then (case desiredDbm of
              Finite m e \<Rightarrow> nat (min (max 1 (mathRound m e)) 100)
            | PosInf \<Rightarrow> 100
            | NegInf \<Rightarrow> 1)
      else index (closestLoop table desiredDbm (table ! 0)
                    (mathAbs (numberSub (powerDbm (table ! 0)) desiredDbm))))"

section \<open>Capabilities\<close>

text \<open>
  The parameter walks of the parsers share one shape: while four bytes are left, read the
  type (low ten bits) and the length of the parameter at the offset, stop when the length
  is 0 or runs past the end of the data, and otherwise move the offset on by the length.
  The reads of a walk are inside the data by the loop's test, so they cannot throw.
  \<open>powerValue / 100.0\<close> is the quotient of the signed 16-bit number by 100, rounded to
  the nearest binary64 number.
\<close>

function parseUHFBandCapabilities_loop :: "bytes \<Rightarrow> nat \<Rightarrow> reader \<Rightarrow> reader" where
  "parseUHFBandCapabilities_loop data offset st =
     (if offset + 4 \<le> length data then
        (let paramType = u16be data offset AND 0x3FF;
             paramLen = u16be data (offset + 2)
         in if paramLen = 0 \<or> paramLen > length data - offset then st
            else if paramType = 145 then
              parseUHFBandCapabilities_loop data (offset + paramLen)
                (if paramLen \<ge> 8
                 then st\<lparr>powerTable := powerTable st @
                         [\<lparr>index = u16be data (offset + 4),
                           powerDbm = roundRatio (i16be data (offset + 6)) 100 0\<rparr>]\<rparr>
                 else st)
            else if paramType = 147 then
              parseUHFBandCapabilities_loop data (offset + paramLen)
                (if paramLen \<ge> 6 \<and> u16be data (offset + 4) > 0
                 then st\<lparr>hopTableIds := hopTableIds st @ [u16be data (offset + 4)]\<rparr>
                 else st)
            else parseUHFBandCapabilities_loop data (offset + paramLen) st)
      else st)"
  by pat_completeness auto
termination
  by (relation "measure (\<lambda>(data, offset, st). length data - offset)") auto

declare parseUHFBandCapabilities_loop.simps [simp del]

text \<open>
  The sort of the power table, \<open>sort((a, b) => a.powerDbm - b.powerDbm)\<close>.
  \<open>Array.prototype.sort\<close> is stable and reads a comparator result that is not positive
  (a NaN as 0) as "not behind": each entry is put in front of the first later entry that
  it is not behind, as \<open>sort_key\<close> does with its key.
\<close>

definition comparePower :: "powerEntry \<Rightarrow> powerEntry \<Rightarrow> jsNumber" where
  "comparePower a b = numberSub (powerDbm a) (powerDbm b)"

fun insertEntry :: "powerEntry \<Rightarrow> powerEntry list \<Rightarrow> powerEntry list" where
  "insertEntry x [] = [x]"
| "insertEntry x (y # ys) =
     (if isPositive (comparePower x y) then y # insertEntry x ys else x # y # ys)"

definition sortPowerTable :: "powerEntry list \<Rightarrow> powerEntry list" where
  "sortPowerTable table = foldr insertEntry table []"

definition parseUHFBandCapabilities :: "bytes \<Rightarrow> reader \<Rightarrow> reader" where
  "parseUHFBandCapabilities data st =
     (let st1 = parseUHFBandCapabilities_loop data 4 st
      in st1\<lparr>powerTable := sortPowerTable (powerTable st1)\<rparr>)"

function parseRegulatoryCapabilities_loop :: "bytes \<Rightarrow> nat \<Rightarrow> reader \<Rightarrow> reader" where
  "parseRegulatoryCapabilities_loop data offset st =
     (if offset + 4 \<le> length data then
        (let paramType = u16be data offset AND 0x3FF;
             paramLen = u16be data (offset + 2)
         in if paramLen = 0 \<or> paramLen > length data - offset then st
            else if paramType = 144 then
              parseRegulatoryCapabilities_loop data (offset + paramLen)
                (parseUHFBandCapabilities (slice data offset (offset + paramLen)) st)
            else parseRegulatoryCapabilities_loop data (offset + paramLen) st)
      else st)"
  by pat_completeness auto
termination
  by (relation "measure (\<lambda>(data, offset, st). length data - offset)") auto

declare parseRegulatoryCapabilities_loop.simps [simp del]

definition parseRegulatoryCapabilities :: "bytes \<Rightarrow> reader \<Rightarrow> reader" where
  "parseRegulatoryCapabilities data st =
     (if 4 + 4 > length data then st
      else parseRegulatoryCapabilities_loop data 8 st)"

function parseCapabilities_loop :: "bytes \<Rightarrow> nat \<Rightarrow> reader \<Rightarrow> reader" where
  "parseCapabilities_loop data offset st =
     (if offset + 4 \<le> length data then
        (let paramType = u16be data offset AND 0x3FF;
             paramLen = u16be data (offset + 2)
         in if paramLen = 0 \<or> paramLen > length data - offset then st
            else if paramType = 143 then
              parseCapabilities_loop data (offset + paramLen)
                (parseRegulatoryCapabilities (slice data offset (offset + paramLen)) st)
            else parseCapabilities_loop data (offset + paramLen) st)
      else st)"
  by pat_completeness auto
termination
  by (relation "measure (\<lambda>(data, offset, st). length data - offset)") auto

declare parseCapabilities_loop.simps [simp del]

text \<open>The part of \<open>parseCapabilities\<close> after the status check: the walk, then the hop table.\<close>

definition parseCapabilities_from :: "bytes \<Rightarrow> nat \<Rightarrow> reader \<Rightarrow> reader" where
  "parseCapabilities_from data offset st =
     (let st1 = parseCapabilities_loop data offset st
      in if length (hopTableIds st1) > 0
         then st1\<lparr>hopTableId := hopTableIds st1 ! 0\<rparr>
         else st1\<lparr>hopTableId := 1\<rparr>)"

text \<open>
  The status code of a leading LLRPStatus is read at offset 14 without a test of the
  length: on a message shorter than 16 bytes the read throws.
\<close>

definition parseCapabilities :: "reader \<Rightarrow> bytes \<Rightarrow> error + bool \<times> reader" where
  "parseCapabilities st data =
     (let offset = 10
      in if offset + 4 \<le> length data then
           (let statusType = u16be data offset AND 0x3FF
            in if statusType = 287 then
                 (let statusLen = u16be data (offset + 2)
                  in bindE (readUInt16BE data (offset + 4)) (\<lambda>statusCode.
                       if statusCode \<noteq> 0 then Inr (False, st)
                       else Inr (True, parseCapabilities_from data (offset + statusLen) st)))
               else Inr (True, parseCapabilities_from data offset st))
         else Inr (True, parseCapabilities_from data offset st))"

text \<open>
  \<open>antennaPowerDbm[ant] || 30\<close>: a missing entry, NaN and zero give 30, which is
  \<open>Finite 15 1\<close>.
\<close>

definition desiredDbmOf :: "config \<Rightarrow> nat \<Rightarrow> double" where
  "desiredDbmOf c ant =
     (case antennaPowerDbm c ant of
        None \<Rightarrow> Finite 15 1
      | Some NaN \<Rightarrow> Finite 15 1
      | Some (Number (Finite m e)) \<Rightarrow> if m = 0 then Finite 15 1 else Finite m e
      | Some (Number PosInf) \<Rightarrow> PosInf
      | Some (Number NegInf) \<Rightarrow> NegInf)"

fun computePowerIndices_loop :: "nat list \<Rightarrow> reader \<Rightarrow> reader" where
  "computePowerIndices_loop [] st = st"
| "computePowerIndices_loop (ant # rest) st =
     computePowerIndices_loop rest
       (st\<lparr>antennaPowerIndex := (antennaPowerIndex st)
              (ant \<mapsto> findClosestPowerIndex (powerTable st) (desiredDbmOf (cfg st) ant))\<rparr>)"

definition computePowerIndices :: "reader \<Rightarrow> reader" where
  "computePowerIndices st = computePowerIndices_loop (antennas (cfg st)) st"

section \<open>Outbound messages\<close>

text \<open>
  The header that \<open>sendMessage\<close> writes in front of the payload: byte 0 with the version
  and the two high bits of the type, byte 1 with the low eight bits, the total length and
  the message identifier as unsigned 32-bit numbers. \<open>writeUInt32BE\<close> throws on a number
  that does not fit.
\<close>

definition sendMessage_frame :: "nat \<Rightarrow> nat \<Rightarrow> bytes \<Rightarrow> error + bytes" where
  "sendMessage_frame type mid payload =
     (let msgLen = 10 + length payload
      in bindE (writeUInt8 (0x04 OR (drop_bit 8 type AND 0x03))) (\<lambda>b0.
         bindE (writeUInt8 (type AND 0xFF)) (\<lambda>b1.
         bindE (writeUInt32BE msgLen) (\<lambda>b2.
         bindE (writeUInt32BE mid) (\<lambda>b6.
         Inr ((b0 @ b1 @ b2 @ b6) @ payload))))))"

text \<open>The same header as the stripped-down script writes it, with \<open>0x01 << 2\<close> in byte 0.\<close>

definition minimal_sendMessage_frame :: "nat \<Rightarrow> nat \<Rightarrow> bytes \<Rightarrow> error + bytes" where
  "minimal_sendMessage_frame type mid payload =
     bindE (writeUInt8 (push_bit 2 0x01 OR (drop_bit 8 type AND 0x03))) (\<lambda>b0.
     bindE (writeUInt8 (type AND 0xFF)) (\<lambda>b1.
     bindE (writeUInt32BE (10 + length payload)) (\<lambda>b2.
     bindE (writeUInt32BE mid) (\<lambda>b6.
     Inr ((b0 @ b1 @ b2 @ b6) @ payload)))))"

definition sendMessage :: "reader \<Rightarrow> nat \<Rightarrow> bytes \<Rightarrow> error + reader" where
  "sendMessage st type payload =
     (if \<not> socket st \<or> \<not> connected st then Inr st
      else bindE (sendMessage_frame type (messageId st) payload) (\<lambda>frame.
             Inr (st\<lparr>messageId := messageId st + 1, written := written st @ [frame]\<rparr>)))"

definition sendGetReaderCapabilities :: "reader \<Rightarrow> error + reader" where
  "sendGetReaderCapabilities st = sendMessage st 1 [0x00]"

definition sendDeleteROSpec :: "reader \<Rightarrow> error + reader" where
  "sendDeleteROSpec st = bindE (writeUInt32BE 0) (\<lambda>payload. sendMessage st 21 payload)"

definition sendEnableROSpec :: "reader \<Rightarrow> error + reader" where
  "sendEnableROSpec st = bindE (writeUInt32BE 1) (\<lambda>payload. sendMessage st 24 payload)"

definition sendStartROSpec :: "reader \<Rightarrow> error + reader" where
  "sendStartROSpec st = bindE (writeUInt32BE 1) (\<lambda>payload. sendMessage st 22 payload)"

definition sendKeepaliveAck :: "reader \<Rightarrow> error + reader" where
  "sendKeepaliveAck st = sendMessage st 72 []"

section \<open>Connection\<close>

text \<open>
  The constructor, and the two callbacks that \<open>connect\<close> installs for an established
  connection: the connect callback, and the timer that asks for the capabilities.
\<close>

definition newReader :: "config \<Rightarrow> reader" where
  "newReader c =
     \<lparr>cfg = c, socket = False, messageId = 1, buffer = [], connected = False,
      shouldReconnect = enableReconnect c, reconnectTimer = False, isShuttingDown = False,
      configStarted = False, rospecStarted = False, powerTable = [],
      antennaPowerIndex = Map.empty, hopTableIds = [], hopTableId = 1,
      written = [], emitted = []\<rparr>"

definition connect :: "reader \<Rightarrow> reader" where
  "connect st = (if isShuttingDown st then st else st\<lparr>socket := True\<rparr>)"

definition onConnect :: "reader \<Rightarrow> error + reader" where
  "onConnect st =
     sendMessage (st\<lparr>connected := True, emitted := emitted st @ [Connected]\<rparr>) 64 []"

definition onCapabilitiesTimer :: "reader \<Rightarrow> error + reader" where
  "onCapabilitiesTimer st = (if connected st then sendGetReaderCapabilities st else Inr st)"

section \<open>ROSpec\<close>

text \<open>
  \<open>buildROSpec\<close> with its local helpers. The helpers \<open>c1g2SingulationControl\<close> and
  \<open>c1g2InventoryCommand\<close> of the source are defined there and called nowhere; they
  have no part in the bytes built.
\<close>

definition tlv :: "nat \<Rightarrow> bytes \<Rightarrow> error + bytes" where
  "tlv type valueBuf =
     bindE (writeUInt16BE type) (\<lambda>h0.
     bindE (writeUInt16BE (4 + length valueBuf)) (\<lambda>h2.
     Inr ((h0 @ h2) @ valueBuf)))"

definition stopTriggerTLV :: "nat \<Rightarrow> nat \<Rightarrow> nat \<Rightarrow> error + bytes" where
  "stopTriggerTLV typeNum triggerType durationMs =
     bindE (writeUInt8 (triggerType AND 0xFF)) (\<lambda>v0.
     bindE (writeUInt32BE (durationMs mod 4294967296)) (\<lambda>v1.
     tlv typeNum (v0 @ v1)))"

definition rfTransmitter :: "reader \<Rightarrow> nat \<Rightarrow> error + bytes" where
  "rfTransmitter st powerIndex =
     bindE (writeUInt16BE (hopTableId st)) (\<lambda>v0.
     bindE (writeUInt16BE 0) (\<lambda>v2.
     bindE (writeUInt16BE powerIndex) (\<lambda>v4.
     tlv 224 (v0 @ v2 @ v4))))"

definition antennaConfiguration :: "reader \<Rightarrow> nat \<Rightarrow> error + bytes" where
  "antennaConfiguration st antennaId =
     bindE (writeUInt16BE antennaId) (\<lambda>antId.
     (let powerIndex =
            (case antennaPowerIndex st antennaId of
               Some i \<Rightarrow> i
             | None \<Rightarrow> (if length (powerTable st) \<noteq> 0
                         then index (powerTable st ! (length (powerTable st) - 1))
                         else 1))
      in bindE (rfTransmitter st powerIndex) (\<lambda>rfTx.
         tlv 222 (antId @ rfTx))))"

definition inventoryParameterSpecWithAntennas :: "reader \<Rightarrow> nat list \<Rightarrow> error + bytes" where
  "inventoryParameterSpecWithAntennas st antennaIds =
     bindE (writeUInt16BE 1) (\<lambda>hdr0.
     bindE (writeUInt8 1) (\<lambda>hdr2.
     bindE (mapE (antennaConfiguration st) antennaIds) (\<lambda>confs.
     tlv 186 ((hdr0 @ hdr2) @ concat confs))))"

definition buildROSpec :: "reader \<Rightarrow> error + bytes" where
  "buildROSpec st =
     bindE (writeUInt32BE 1) (\<lambda>f0.
     bindE (writeUInt8 0) (\<lambda>f4.
     bindE (writeUInt8 0) (\<lambda>f5.
     bindE (tlv 179 [0x00]) (\<lambda>roStartTrigger.
     bindE (stopTriggerTLV 182 0 0) (\<lambda>roStopTrigger.
     bindE (tlv 178 (roStartTrigger @ roStopTrigger)) (\<lambda>roBoundary.
     bindE (writeUInt16BE (length (antennas (cfg st)))) (\<lambda>antennaCount.
     bindE (mapE writeUInt16BE (antennas (cfg st))) (\<lambda>antennaIdList.
     bindE (stopTriggerTLV 184 0 0) (\<lambda>aiStopTrigger.
     bindE (inventoryParameterSpecWithAntennas st (antennas (cfg st))) (\<lambda>invParamSpec.
     bindE (tlv 183 ((antennaCount @ concat antennaIdList) @ aiStopTrigger @ invParamSpec)) (\<lambda>aiSpec.
     bindE (tlv 238 [0x00, 0x00]) (\<lambda>tagReportContentSelector.
     bindE (writeUInt8 0x01) (\<lambda>r0.
     bindE (writeUInt16BE 1) (\<lambda>r1.
     bindE (tlv 237 ((r0 @ r1) @ tagReportContentSelector)) (\<lambda>roReportSpec.
     tlv 177 ((f0 @ f4 @ f5) @ roBoundary @ aiSpec @ roReportSpec))))))))))))))))"

definition sendAddROSpec :: "reader \<Rightarrow> error + reader" where
  "sendAddROSpec st = bindE (buildROSpec st) (\<lambda>rospec. sendMessage st 20 rospec)"

section \<open>Response status\<close>

text \<open>
  \<open>checkResponse\<close> walks the parameters of a response and returns false when an
  LLRPStatus (287) has a status code other than 0. The status code, the length of the
  description and the fields of nested FieldError and ParameterError parameters are read
  without a test against the length of the message: the reads throw when they leave it.
  What the function prints is no part of the model.
\<close>

function checkResponse_nested :: "bytes \<Rightarrow> nat \<Rightarrow> nat \<Rightarrow> nat \<Rightarrow> error + unit" where
  "checkResponse_nested data offset paramLen nestedOffset =
     (if nestedOffset + 4 \<le> offset + paramLen then
        (let nestedType = u16be data nestedOffset AND 0x3FF;
             nestedLen = u16be data (nestedOffset + 2)
         in if nestedLen = 0 \<or> nestedLen > paramLen then Inr ()
            else
              bindE (if nestedType = 288 \<and> nestedLen \<ge> 8
                     then bindE (readUInt16BE data (nestedOffset + 4)) (\<lambda>fieldNum.
                          bindE (readUInt16BE data (nestedOffset + 6)) (\<lambda>errorCode. Inr ()))
                     else Inr ()) (\<lambda>_.
              bindE (if nestedType = 289 \<and> nestedLen \<ge> 8
                     then bindE (readUInt16BE data (nestedOffset + 4)) (\<lambda>paramErrorType.
                          bindE (readUInt16BE data (nestedOffset + 6)) (\<lambda>errorCode. Inr ()))
                     else Inr ()) (\<lambda>_.
              checkResponse_nested data offset paramLen (nestedOffset + nestedLen))))
      else Inr ())"
  by pat_completeness auto
termination
  by (relation "measure (\<lambda>(data, offset, paramLen, nestedOffset). offset + paramLen - nestedOffset)")
     auto

declare checkResponse_nested.simps [simp del]

function checkResponse_loop :: "bytes \<Rightarrow> nat \<Rightarrow> bool \<Rightarrow> error + bool" where
  "checkResponse_loop data offset success =
     (if offset + 4 \<le> length data then
        (let paramType = u16be data offset AND 0x3FF;
             paramLen = u16be data (offset + 2)
         in if paramLen = 0 \<or> paramLen > length data - offset then Inr success
            else if paramType = 287 then
              bindE (readUInt16BE data (offset + 4)) (\<lambda>statusCode.
                if statusCode \<noteq> 0 then
                  bindE (if paramLen > 6
                         then bindE (readUInt16BE data (offset + 6)) (\<lambda>descLen.
                                checkResponse_nested data offset paramLen (offset + 8 + descLen))
                         else Inr ()) (\<lambda>_.
                  checkResponse_loop data (offset + paramLen) False)
                else checkResponse_loop data (offset + paramLen) success)
            else checkResponse_loop data (offset + paramLen) success)
      else Inr success)"
  by pat_completeness auto
termination
  by (relation "measure (\<lambda>(data, offset, success). length data - offset)") auto

declare checkResponse_loop.simps [simp del]

definition checkResponse :: "bytes \<Rightarrow> error + bool" where
  "checkResponse data = checkResponse_loop data 10 True"

text \<open>\<open>handleErrorMessage\<close> only prints; its unguarded reads can throw.\<close>

function handleErrorMessage_loop :: "bytes \<Rightarrow> nat \<Rightarrow> error + unit" where
  "handleErrorMessage_loop data offset =
     (if offset + 4 < length data then
        (let paramType = u16be data offset AND 0x3FF;
             paramLen = u16be data (offset + 2)
         in if paramLen = 0 \<or> paramLen > length data - offset then Inr ()
            else
              bindE (if paramType = 287
                     then bindE (readUInt16BE data (offset + 4)) (\<lambda>statusCode.
                          bindE (readUInt16BE data (offset + 6)) (\<lambda>descLen. Inr ()))
                     else Inr ()) (\<lambda>_.
              bindE (if paramType = 288
                     then bindE (readUInt16BE data (offset + 4)) (\<lambda>fieldNum.
                          bindE (readUInt16BE data (offset + 6)) (\<lambda>errorCode. Inr ()))
                     else Inr ()) (\<lambda>_.
              bindE (if paramType = 289
                     then bindE (readUInt16BE data (offset + 4)) (\<lambda>paramErrorType.
                          bindE (readUInt16BE data (offset + 6)) (\<lambda>errorCode. Inr ()))
                     else Inr ()) (\<lambda>_.
              handleErrorMessage_loop data (offset + paramLen)))))
      else Inr ())"
  by pat_completeness auto
termination
  by (relation "measure (\<lambda>(data, offset). length data - offset)") auto

declare handleErrorMessage_loop.simps [simp del]

definition handleErrorMessage :: "bytes \<Rightarrow> error + unit" where
  "handleErrorMessage data = handleErrorMessage_loop data 10"

section \<open>Tag reports\<close>

text \<open>\<open>toString('hex').toUpperCase()\<close>: two upper-case hexadecimal digits for each byte.\<close>

definition hexDigit :: "nat \<Rightarrow> char" where
  "hexDigit n = ''0123456789ABCDEF'' ! n"

definition toHexUpper :: "bytes \<Rightarrow> string" where
  "toHexUpper bs = concat (map (\<lambda>b. [hexDigit (unat b div 16), hexDigit (unat b mod 16)]) bs)"

text \<open>
  The two resynchronisation loops of \<open>parseTagReportData\<close> have one shape: from \<open>j\<close>, while
  \<open>j\<close> is at most the bound and \<open>offset + j\<close> is inside the data, stop at the first byte with
  the top bit set. The bound is 16 after an unknown TV type and 4 after a TLV whose length
  is 0 or runs past the end of the data.
\<close>

function scanForward :: "bytes \<Rightarrow> nat \<Rightarrow> nat \<Rightarrow> nat \<Rightarrow> nat option" where
  "scanForward data offset bound j =
     (if j \<le> bound \<and> offset + j < length data then
        (if byteAt data (offset + j) AND 0x80 \<noteq> 0 then Some j
         else scanForward data offset bound (j + 1))
      else None)"
  by pat_completeness auto
termination
  by (relation "measure (\<lambda>(data, offset, bound, j). bound + 1 - j)") auto

declare scanForward.simps [simp del]

function parseTagReportData_loop :: "bytes \<Rightarrow> nat \<Rightarrow> tag \<Rightarrow> tag" where
  "parseTagReportData_loop data offset tag =
     (if offset < length data then
        (if byteAt data offset AND 0x80 \<noteq> 0 then
           (let tvType = byteAt data offset AND 0x7F
            in if tvType = 1 then
                 parseTagReportData_loop data (offset + 3)
                   (if offset + 3 \<le> length data
                    then tag\<lparr>antenna := Some (u16be data (offset + 1))\<rparr> else tag)
               else if tvType = 6 then
                 parseTagReportData_loop data (offset + 2)
                   (if offset + 2 \<le> length data
                    then tag\<lparr>rssi := Some (i8 data (offset + 1))\<rparr> else tag)
               else if tvType = 7 then parseTagReportData_loop data (offset + 3) tag
               else if tvType = 8 then parseTagReportData_loop data (offset + 9) tag
               else if tvType = 9 then
                 parseTagReportData_loop data (offset + 9)
                   (if offset + 9 \<le> length data
                    then tag\<lparr>timestamp := Some (u64be data (offset + 1))\<rparr> else tag)
               else if tvType = 10 then
                 parseTagReportData_loop data (offset + 3)
                   (if offset + 3 \<le> length data
                    then tag\<lparr>seenCount := Some (u16be data (offset + 1))\<rparr> else tag)
               else if tvType = 13 then
                 parseTagReportData_loop data (offset + 13)
                   (if offset + 13 \<le> length data
                    then tag\<lparr>epc := Some (toHexUpper (slice data (offset + 1) (offset + 13)))\<rparr>
                    else tag)
               else if tvType = 14 then parseTagReportData_loop data (offset + 5) tag
               else if tvType = 15 then parseTagReportData_loop data (offset + 3) tag
               else if tvType = 16 then parseTagReportData_loop data (offset + 3) tag
               else (case scanForward data offset 16 1 of
                       Some j \<Rightarrow> parseTagReportData_loop data (offset + j) tag
                     | None \<Rightarrow> tag))
         else if offset + 3 \<ge> length data then tag
         else
           (let tlvType = u16be data offset AND 0x3FF;
                tlvLen = u16be data (offset + 2)
            in if tlvLen = 0 \<or> offset + tlvLen > length data then
                 (case scanForward data offset 4 1 of
                    Some skip \<Rightarrow> parseTagReportData_loop data (offset + skip) tag
                  | None \<Rightarrow> tag)
               else
                 parseTagReportData_loop data (offset + tlvLen)
                   (if tlvType = 241 then
                      (if offset + 5 < length data then
                         (let epcBitLen = u16be data (offset + 4);
                              epcLen = epcBitLen div 8
                          in if offset + 6 + epcLen \<le> length data
                             then tag\<lparr>epc := Some (toHexUpper
                                    (slice data (offset + 6) (offset + 6 + epcLen)))\<rparr>
                             else tag)
                       else tag)
                    else if tlvType = 13 then
                      (if offset + 4 + 12 \<le> length data
                       then tag\<lparr>epc := Some (toHexUpper
                              (slice data (offset + 4) (offset + 4 + 12)))\<rparr>
                       else tag)
                    else tag)))
      else tag)"
  by pat_completeness auto

lemma scanForward_Some:
  "scanForward data offset bound j = Some k \<Longrightarrow> j \<le> k \<and> k \<le> bound \<and> offset + k < length data"
proof (induction data offset bound j rule: scanForward.induct)
  case (1 data offset bound j)
  show ?case
  proof (cases "j \<le> bound \<and> offset + j < length data")
    case False
    with "1.prems" show ?thesis by (subst (asm) scanForward.simps) auto
  next
    case True
    show ?thesis
    proof (cases "byteAt data (offset + j) AND 0x80 \<noteq> 0")
      case msb: True
      with True "1.prems" show ?thesis by (subst (asm) scanForward.simps) auto
    next
      case False
      with True "1.prems" have "scanForward data offset bound (j + 1) = Some k"
        by (subst (asm) scanForward.simps) auto
      with "1.IH" True False show ?thesis by auto
    qed
  qed
qed

termination parseTagReportData_loop
  by (relation "measure (\<lambda>(data, offset, tag). length data - offset)")
     (auto dest: scanForward_Some)

declare parseTagReportData_loop.simps [simp del]

definition parseTagReportData :: "bytes \<Rightarrow> tag" where
  "parseTagReportData data =
     parseTagReportData_loop data 0
       \<lparr>epc = None, antenna = None, rssi = None, timestamp = None, seenCount = None\<rparr>"

text \<open>
  \<open>!tag.epc\<close> holds for \<open>null\<close> and for the empty string, \<open>!tag.antenna\<close> for \<open>null\<close> and
  for 0.
\<close>

definition epcFalsy :: "tag \<Rightarrow> bool" where
  "epcFalsy t \<longleftrightarrow> epc t = None \<or> epc t = Some []"

definition antennaFalsy :: "tag \<Rightarrow> bool" where
  "antennaFalsy t \<longleftrightarrow> antenna t = None \<or> antenna t = Some 0"

function parseTagReport_loop :: "bytes \<Rightarrow> nat \<Rightarrow> reader \<Rightarrow> reader" where
  "parseTagReport_loop data offset st =
     (if offset + 4 \<le> length data then
        (let paramType = u16be data offset AND 0x3FF;
             paramLen = u16be data (offset + 2)
         in if paramLen = 0 \<or> paramLen > length data - offset then st
            else if paramType = 240 then
              (let tagData = slice data (offset + 4) (offset + paramLen);
                   tag = parseTagReportData tagData
               in parseTagReport_loop data (offset + paramLen)
                    (if epcFalsy tag then st
                     else st\<lparr>emitted := emitted st @
                            [Tag (if antennaFalsy tag \<and> length (antennas (cfg st)) = 1
                                  then tag\<lparr>antenna := Some (antennas (cfg st) ! 0)\<rparr>
                                  else tag)]\<rparr>))
            else parseTagReport_loop data (offset + paramLen) st)
      else st)"
  by pat_completeness auto
termination
  by (relation "measure (\<lambda>(data, offset, st). length data - offset)") auto

declare parseTagReport_loop.simps [simp del]

definition parseTagReport :: "reader \<Rightarrow> bytes \<Rightarrow> reader" where
  "parseTagReport st data =
     (if \<not> rospecStarted st then st else parseTagReport_loop data 10 st)"

section \<open>Inbound messages\<close>

definition msgTypeOf :: "bytes \<Rightarrow> nat" where
  "msgTypeOf data = push_bit 8 (byteAt data 0 AND 0x03) OR byteAt data 1"

definition processMessage :: "reader \<Rightarrow> bytes \<Rightarrow> error + reader" where
  "processMessage st data =
     (let msgType = msgTypeOf data
      in if msgType = 12 then Inr st
         else if msgType = 63 then
           Inr (if \<not> configStarted st then st\<lparr>configStarted := True\<rparr> else st)
         else if msgType = 11 then
           bindE (parseCapabilities st data) (\<lambda>(ok, st1).
             if \<not> ok then Inr st1 else sendDeleteROSpec (computePowerIndices st1))
         else if msgType = 100 then bindE (handleErrorMessage data) (\<lambda>_. Inr st)
         else if msgType = 13 then bindE (checkResponse data) (\<lambda>_. sendDeleteROSpec st)
         else if msgType = 31 then bindE (checkResponse data) (\<lambda>_. sendAddROSpec st)
         else if msgType = 30 then bindE (checkResponse data) (\<lambda>_. sendEnableROSpec st)
         else if msgType = 34 then bindE (checkResponse data) (\<lambda>_. sendStartROSpec st)
         else if msgType = 32 then
           bindE (checkResponse data) (\<lambda>ok.
             if ok then Inr (st\<lparr>rospecStarted := True, emitted := emitted st @ [Ready]\<rparr>)
             else Inr st)
         else if msgType = 61 then Inr (parseTagReport st data)
         else if msgType = 62 then sendKeepaliveAck st
         else Inr st)"

text \<open>
  The receive loop of \<open>handleData\<close>. The loop of the source has no bound: the fuel counts
  its iterations, and \<open>None\<close> says that the fuel ran out before the loop ended. An
  exception thrown by \<open>processMessage\<close> leaves the loop and the handler.
\<close>

fun handleData_loop :: "nat \<Rightarrow> reader \<Rightarrow> (error + reader) option" where
  "handleData_loop 0 st = None"
| "handleData_loop (Suc fuel) st =
     (if length (buffer st) \<ge> 10 then
        (let msgLength = u32be (buffer st) 2
         in if length (buffer st) < msgLength then Some (Inr st)
            else
              (let message = slice (buffer st) 0 msgLength;
                   st1 = st\<lparr>buffer := slice (buffer st) msgLength (length (buffer st))\<rparr>
               in case processMessage st1 message of
                    Inl e \<Rightarrow> Some (Inl e)
                  | Inr st2 \<Rightarrow> handleData_loop fuel st2))
      else Some (Inr st))"

definition handleData :: "nat \<Rightarrow> reader \<Rightarrow> bytes \<Rightarrow> (error + reader) option" where
  "handleData fuel st data = handleData_loop fuel (st\<lparr>buffer := buffer st @ data\<rparr>)"

section \<open>Notions used by the properties\<close>

text \<open>
  The rational number that a finite double stands for, and the place of a double among
  the infinities. The difference of a table entry to the target as the loop of
  \<open>findClosestPowerIndex\<close> computes it.
\<close>

definition doubleValue :: "double \<Rightarrow> rat" where
  "doubleValue x = (case x of Finite m e \<Rightarrow> of_int m * 2 powi e | PosInf \<Rightarrow> 0 | NegInf \<Rightarrow> 0)"

definition doubleRank :: "double \<Rightarrow> int" where
  "doubleRank x = (case x of Finite m e \<Rightarrow> 0 | PosInf \<Rightarrow> 1 | NegInf \<Rightarrow> - 1)"

abbreviation diffTo :: "double \<Rightarrow> powerEntry \<Rightarrow> jsNumber" where
  "diffTo desiredDbm entry \<equiv> mathAbs (numberSub (powerDbm entry) desiredDbm)"

text \<open>
  A finite double whose exponent is not below that of the smallest subnormal number, and
  a reader whose power table holds such values only.
\<close>

definition finiteDouble :: "double \<Rightarrow> bool" where
  "finiteDouble x = (case x of Finite m e \<Rightarrow> - 1074 \<le> e | PosInf \<Rightarrow> False | NegInf \<Rightarrow> False)"

definition finiteTable :: "reader \<Rightarrow> bool" where
  "finiteTable st \<longleftrightarrow> (\<forall>x \<in> set (powerTable st). finiteDouble (powerDbm x))"

text \<open>
  What a parameter walk of the capabilities parser may change in the reader: the two
  tables. The hop-table list grows at its end by \<open>H\<close>; the power table gains the entries
  \<open>E\<close> and is sorted again, so it is described up to order.
\<close>

definition addsTables :: "reader \<Rightarrow> reader \<Rightarrow> powerEntry list \<Rightarrow> nat list \<Rightarrow> bool" where
  "addsTables s s' E H \<longleftrightarrow>
     s' = s\<lparr>powerTable := powerTable s', hopTableIds := hopTableIds s @ H\<rparr>
   \<and> mset (powerTable s') = mset (powerTable s) + mset E"

definition selectHop :: "nat list \<Rightarrow> nat" where
  "selectHop hs = (if length hs > 0 then hs ! 0 else 1)"

text \<open>
  The configuration object of the source, the reader after the connect callback and the
  capabilities timer have run, and the capabilities response of a reader with the power
  levels 10 dBm (index 1, \<open>Finite 5 1\<close>) and 30 dBm (index 200, \<open>Finite 15 1\<close>) and the
  hop table 1: a header of type 11,
  an LLRPStatus with code 0, and a RegulatoryCapabilities (143) with one
  UHFBandCapabilities (144) that holds two TransmitPowerLevelTableEntry (145) and one
  FrequencyHopTable (147).
\<close>

definition CONFIG :: config where
  "CONFIG = \<lparr>antennas = [1], antennaPowerDbm = [1 \<mapsto> Number (Finite 15 1), 2 \<mapsto> Number (Finite 15 1),
                                3 \<mapsto> Number (Finite 15 1), 4 \<mapsto> Number (Finite 15 1)],
             reconnectInterval = 5000, enableReconnect = True\<rparr>"

definition connectedReader :: reader where
  "connectedReader =
     \<lparr>cfg = CONFIG, socket = True, messageId = 3, buffer = [], connected = True,
      shouldReconnect = True, reconnectTimer = False, isShuttingDown = False,
      configStarted = False, rospecStarted = False, powerTable = [],
      antennaPowerIndex = Map.empty, hopTableIds = [], hopTableId = 1,
      written = [[0x04, 0x40, 0x00, 0x00, 0x00, 0x0A, 0x00, 0x00, 0x00, 0x01],
                 [0x04, 0x01, 0x00, 0x00, 0x00, 0x0B, 0x00, 0x00, 0x00, 0x02, 0x00]],
      emitted = [Connected]\<rparr>"

definition capabilitiesResponse :: bytes where
  "capabilitiesResponse =
     [0x04, 0x0B, 0x00, 0x00, 0x00, 0x34, 0x00, 0x00, 0x00, 0x01,
      0x01, 0x1F, 0x00, 0x08, 0x00, 0x00, 0x00, 0x00,
      0x00, 0x8F, 0x00, 0x22, 0x00, 0x00, 0x00, 0x00,
      0x00, 0x90, 0x00, 0x1A,
      0x00, 0x91, 0x00, 0x08, 0x00, 0x01, 0x03, 0xE8,
      0x00, 0x91, 0x00, 0x08, 0x00, 0xC8, 0x0B, 0xB8,
      0x00, 0x93, 0x00, 0x06, 0x00, 0x01]"

text \<open>
  One round of the receive loop of \<open>handleData\<close> seen on the buffer alone: the message it
  cuts off and the bytes it leaves, or \<open>None\<close> when it waits for more bytes.
\<close>

definition nextFrame :: "bytes \<Rightarrow> (bytes \<times> bytes) option" where
  "nextFrame buf =
     (if length buf \<ge> 10 then
        (let msgLength = u32be buf 2
         in if length buf < msgLength then None
            else Some (slice buf 0 msgLength, slice buf msgLength (length buf)))
      else None)"

text \<open>
  The offsets at which a parameter walk from \<open>offset\<close> finds a parameter, and the type
  that the walk reads there. A message carries a parameter of some type when the walk
  from offset 10 finds it.
\<close>

function paramOffsets :: "bytes \<Rightarrow> nat \<Rightarrow> nat list" where
  "paramOffsets data offset =
     (if offset + 4 \<le> length data then
        (let paramLen = u16be data (offset + 2)
         in if paramLen = 0 \<or> paramLen > length data - offset then []
            else offset # paramOffsets data (offset + paramLen))
      else [])"
  by pat_completeness auto
termination
  by (relation "measure (\<lambda>(data, offset). length data - offset)") auto

declare paramOffsets.simps [simp del]

definition paramTypeAt :: "bytes \<Rightarrow> nat \<Rightarrow> nat" where
  "paramTypeAt data off = u16be data off AND 0x3FF"

text \<open>
  Responses of a reader. An ADD_ROSPEC_RESPONSE (30) and a START_ROSPEC_RESPONSE (32)
  that carry an LLRPStatus with the code 100 and the description \<open>Bad ROSpec\<close>, and a
  START_ROSPEC_RESPONSE whose only parameter is not an LLRPStatus.
\<close>

definition addRospecRejected :: bytes where
  "addRospecRejected =
     [0x04, 0x1E, 0x00, 0x00, 0x00, 0x1C, 0x00, 0x00, 0x00, 0x04,
      0x01, 0x1F, 0x00, 0x12, 0x00, 0x64, 0x00, 0x0A,
      0x42, 0x61, 0x64, 0x20, 0x52, 0x4F, 0x53, 0x70, 0x65, 0x63]"

definition startRospecRejected :: bytes where
  "startRospecRejected =
     [0x04, 0x20, 0x00, 0x00, 0x00, 0x1C, 0x00, 0x00, 0x00, 0x06,
      0x01, 0x1F, 0x00, 0x12, 0x00, 0x64, 0x00, 0x0A,
      0x42, 0x61, 0x64, 0x20, 0x52, 0x4F, 0x53, 0x70, 0x65, 0x63]"

definition startRospecNoStatus :: bytes where
  "startRospecNoStatus =
     [0x04, 0x20, 0x00, 0x00, 0x00, 0x0E, 0x00, 0x00, 0x00, 0x06,
      0x00, 0xF0, 0x00, 0x04]"

text \<open>
  Bodies of TagReportData parameters. An EPCData (241) of 12 bits with the bytes AB CD; a
  TLV of length 0 followed, eight bytes on, by an EPC-96 TV (type 13); an unknown TV
  (type 127) followed, three bytes on, by an AntennaID TV (type 1) with the value 3.
\<close>

definition epcData12Bits :: bytes where
  "epcData12Bits = [0x00, 0xF1, 0x00, 0x08, 0x00, 0x0C, 0xAB, 0xCD]"

definition zeroLengthThenEpc :: bytes where
  "zeroLengthThenEpc =
     [0x00, 0x00, 0x00, 0x00, 0x00, 0x00, 0x00, 0x00,
      0x8D, 0x30, 0x0A, 0x00, 0x01, 0x02, 0x03, 0x04, 0x05, 0x06, 0x07, 0x08, 0x09]"

definition unknownTvThenAntenna :: bytes where
  "unknownTvThenAntenna = [0xFF, 0x00, 0x00, 0x81, 0x00, 0x03]"

definition emptyTag :: tag where
  "emptyTag = \<lparr>epc = None, antenna = None, rssi = None, timestamp = None, seenCount = None\<rparr>"

text \<open>
  The bodies of the TagReportData parameters (240) of a report, in the order of the walk;
  what \<open>parseTagReport\<close> does to a decoded record before it emits it; and the
  observations of a report: one for each record whose decoded EPC is not empty.
\<close>

definition tagReportRecords :: "bytes \<Rightarrow> nat \<Rightarrow> bytes list" where
  "tagReportRecords data offset =
     map (\<lambda>off. slice data (off + 4) (off + u16be data (off + 2)))
       (filter (\<lambda>off. paramTypeAt data off = 240) (paramOffsets data offset))"

definition withSoleAntenna :: "config \<Rightarrow> tag \<Rightarrow> tag" where
  "withSoleAntenna c t =
     (if antennaFalsy t \<and> length (antennas c) = 1
      then t\<lparr>antenna := Some (antennas c ! 0)\<rparr> else t)"

definition observations :: "config \<Rightarrow> bytes \<Rightarrow> nat \<Rightarrow> tag list" where
  "observations c data offset =
     map (withSoleAntenna c)
       (filter (\<lambda>t. \<not> epcFalsy t) (map parseTagReportData (tagReportRecords data offset)))"

text \<open>
  The RO_ACCESS_REPORT of scenario S4: one TagReportData with an EPC-96 TV, an AntennaID
  TV with the value 3 and a PeakRSSI TV with the value -40; and a START_ROSPEC_RESPONSE
  with the status code 0.
\<close>

definition reportS4 :: bytes where
  "reportS4 =
     [0x04, 0x3D, 0x00, 0x00, 0x00, 0x20, 0x00, 0x00, 0x00, 0x07,
      0x00, 0xF0, 0x00, 0x16,
      0x8D, 0x30, 0x0A, 0x00, 0x01, 0x02, 0x03, 0x04, 0x05, 0x06, 0x07, 0x08, 0x09,
      0x81, 0x00, 0x03,
      0x86, 0xD8]"

definition startRospecOk :: bytes where
  "startRospecOk =
     [0x04, 0x20, 0x00, 0x00, 0x00, 0x12, 0x00, 0x00, 0x00, 0x06,
      0x01, 0x1F, 0x00, 0x08, 0x00, 0x00, 0x00, 0x00]"

text \<open>
  Ten bytes with the shape of a header whose length field says 5: type 63
  (READER_EVENT_NOTIFICATION), message identifier 1.
\<close>

definition shortFrame :: bytes where
  "shortFrame = [0x04, 0x3F, 0x00, 0x00, 0x00, 0x05, 0x00, 0x00, 0x00, 0x01]"

text \<open>
  The parameters that a walk from \<open>offset\<close> finds, each with its type and its value (the bytes
  after the four-byte header), and the bytes that the helper \<open>tlv\<close> of \<open>buildROSpec\<close>
  returns for a type and a value when it returns.
\<close>

definition params :: "bytes \<Rightarrow> nat \<Rightarrow> (nat \<times> bytes) list" where
  "params data offset =
     map (\<lambda>off. (paramTypeAt data off, slice data (off + 4) (off + u16be data (off + 2))))
       (paramOffsets data offset)"

definition tlvBytes :: "nat \<Rightarrow> bytes \<Rightarrow> bytes" where
  "tlvBytes t v =
     [of_nat (t div 256), of_nat (t mod 256),
      of_nat ((4 + length v) div 256), of_nat ((4 + length v) mod 256)] @ v"

text \<open>
  The reader of scenario S1 after the capabilities were parsed and the power indices
  computed: antenna 1 at index 200, hop table 1.
\<close>

definition configuredReader :: reader where
  "configuredReader =
     connectedReader\<lparr>powerTable := [\<lparr>index = 1, powerDbm = Finite 5 1\<rparr>,
                                      \<lparr>index = 200, powerDbm = Finite 15 1\<rparr>],
                      antennaPowerIndex := [1 \<mapsto> 200], hopTableIds := [1], hopTableId := 1\<rparr>"

text \<open>The ROSpec that this reader builds: 81 bytes.\<close>

definition rospecS1 :: bytes where
  "rospecS1 =
     [0x00, 0xB1, 0x00, 0x51,
      0x00, 0x00, 0x00, 0x01, 0x00, 0x00,
      0x00, 0xB2, 0x00, 0x12,
      0x00, 0xB3, 0x00, 0x05, 0x00,
      0x00, 0xB6, 0x00, 0x09, 0x00, 0x00, 0x00, 0x00, 0x00,
      0x00, 0xB7, 0x00, 0x28,
      0x00, 0x01, 0x00, 0x01,
      0x00, 0xB8, 0x00, 0x09, 0x00, 0x00, 0x00, 0x00, 0x00,
      0x00, 0xBA, 0x00, 0x17, 0x00, 0x01, 0x01,
      0x00, 0xDE, 0x00, 0x10, 0x00, 0x01,
      0x00, 0xE0, 0x00, 0x0A, 0x00, 0x01, 0x00, 0x00, 0x00, 0xC8,
      0x00, 0xED, 0x00, 0x0D, 0x01, 0x00, 0x01,
      0x00, 0xEE, 0x00, 0x06, 0x00, 0x00]"

text \<open>The power index that \<open>antennaConfiguration\<close> writes for an antenna.\<close>

definition powerIndexFor :: "reader \<Rightarrow> nat \<Rightarrow> nat" where
  "powerIndexFor st antennaId =
     (case antennaPowerIndex st antennaId of
        Some i \<Rightarrow> i
      | None \<Rightarrow> (if length (powerTable st) \<noteq> 0
                  then index (powerTable st ! (length (powerTable st) - 1))
                  else 1))"

section \<open>Properties of the numbers\<close>

text \<open>
  The rounding is the one of IEEE-754: \<open>quantum\<close> is the exponent of the last mantissa
  bit in the binade of the exact value (\<open>quantum_bounds\<close>), \<open>roundRatio\<close> returns the
  multiple of it that is nearest to the exact value, the even one of two nearest
  (\<open>roundRatio_nearest\<close>), so a finite result is within half a quantum of the exact value
  (\<open>roundRatio_error\<close>). The sign of a computed difference of two finite doubles is the
  sign of the exact difference (\<open>numberSub_sign\<close>), and \<open><\<close> is the order of the values
  (\<open>doubleLess_iff\<close>).
\<close>

lemmas double_eval = roundRatio_def pack_def scaledQuotient_def roundQuotient_def quantum_def
  floorLog2_def bitLength.simps trim.simps Let_def

lemma scaled_less_iff:
  fixes m1 m2 e1 e2 :: int
  shows "(m1 * 2 ^ nat (e1 - min e1 e2) < m2 * 2 ^ nat (e2 - min e1 e2))
       \<longleftrightarrow> (of_int m1 * 2 powi e1 < (of_int m2 * 2 powi e2 :: rat))"
proof -
  let ?e = "min e1 e2"
  have p: "(0::rat) < 2 powi ?e" by simp
  have a: "(2::rat) powi e1 = 2 ^ nat (e1 - ?e) * 2 powi ?e"
  proof -
    have "(2::rat) powi e1 = 2 powi ((e1 - ?e) + ?e)" by simp
    also have "\<dots> = 2 powi (e1 - ?e) * 2 powi ?e" by (rule power_int_add) simp
    also have "(2::rat) powi (e1 - ?e) = 2 ^ nat (e1 - ?e)" by (simp add: power_int_def)
    finally show ?thesis .
  qed
  have b: "(2::rat) powi e2 = 2 ^ nat (e2 - ?e) * 2 powi ?e"
  proof -
    have "(2::rat) powi e2 = 2 powi ((e2 - ?e) + ?e)" by simp
    also have "\<dots> = 2 powi (e2 - ?e) * 2 powi ?e" by (rule power_int_add) simp
    also have "(2::rat) powi (e2 - ?e) = 2 ^ nat (e2 - ?e)" by (simp add: power_int_def)
    finally show ?thesis .
  qed
  have "(of_int m1 * 2 powi e1 < (of_int m2 * 2 powi e2 :: rat))
      \<longleftrightarrow> (of_int (m1 * 2 ^ nat (e1 - ?e)) * 2 powi ?e
             < (of_int (m2 * 2 ^ nat (e2 - ?e)) * 2 powi ?e :: rat))"
    by (simp add: a b mult.assoc)
  also have "\<dots> \<longleftrightarrow> (of_int (m1 * 2 ^ nat (e1 - ?e)) < (of_int (m2 * 2 ^ nat (e2 - ?e)) :: rat))"
    using p by (rule mult_less_cancel_right_pos)
  also have "\<dots> \<longleftrightarrow> m1 * 2 ^ nat (e1 - ?e) < m2 * 2 ^ nat (e2 - ?e)"
    by (rule of_int_less_iff)
  finally show ?thesis by simp
qed

lemma doubleLess_iff:
  "doubleLess x y \<longleftrightarrow>
     doubleRank x < doubleRank y \<or> (doubleRank x = doubleRank y \<and> doubleValue x < doubleValue y)"
  by (cases x; cases y) (simp_all add: doubleRank_def doubleValue_def scaled_less_iff Let_def)

lemma numberLess_irrefl: "\<not> numberLess a a"
  by (cases a) (simp_all add: doubleLess_iff)

lemma numberLess_trans: "numberLess a b \<Longrightarrow> numberLess b c \<Longrightarrow> numberLess a c"
  by (cases a; cases b; cases c) (auto simp: doubleLess_iff)

lemma numberLess_Number_negtrans:
  "\<not> numberLess (Number x) (Number y) \<Longrightarrow> \<not> numberLess (Number y) (Number z)
     \<Longrightarrow> \<not> numberLess (Number x) (Number z)"
  by (auto simp: doubleLess_iff)


lemma mathAbs_Number: "\<exists>d'. mathAbs (Number d) = Number d'"
  by (cases d) simp_all

lemma bitLength_lower: "0 < n \<Longrightarrow> 2 ^ (bitLength n - 1) \<le> n"
proof (induction n rule: bitLength.induct)
  case (1 n)
  show ?case
  proof (cases "n div 2 = 0")
    case True
    with "1.prems" have "n = 1" by presburger
    then show ?thesis by (simp add: bitLength.simps)
  next
    case False
    then have p: "0 < n div 2" by simp
    with "1.IH" "1.prems" have ih: "2 ^ (bitLength (n div 2) - 1) \<le> n div 2" by simp
    have pos: "0 < bitLength (n div 2)" using p by (subst bitLength.simps) simp
    have "bitLength n = Suc (bitLength (n div 2))"
      using "1.prems" by (subst bitLength.simps) simp
    then have "2 ^ (bitLength n - 1) = 2 * 2 ^ (bitLength (n div 2) - 1)"
      using pos by (cases "bitLength (n div 2)") simp_all
    also have "\<dots> \<le> 2 * (n div 2)" using ih by simp
    also have "\<dots> \<le> n" by simp
    finally show ?thesis .
  qed
qed

lemma bitLength_upper: "n < 2 ^ bitLength n"
proof (induction n rule: bitLength.induct)
  case (1 n)
  show ?case
  proof (cases "n = 0")
    case True
    then show ?thesis by simp
  next
    case False
    with "1.IH" have ih: "n div 2 < 2 ^ bitLength (n div 2)" by simp
    have "bitLength n = Suc (bitLength (n div 2))"
      using False by (subst bitLength.simps) simp
    moreover have "n < 2 * 2 ^ bitLength (n div 2)" using ih by linarith
    ultimately show ?thesis by simp
  qed
qed

lemma bitLength_pos: "0 < n \<Longrightarrow> 0 < bitLength n"
  by (subst bitLength.simps) simp

lemma bitLength_1: "bitLength (Suc 0) = 1"
  by (simp add: bitLength.simps)


lemma trim_cases:
  "m \<noteq> 0 \<Longrightarrow>
     \<exists>m' e'. trim m e = Finite m' e' \<and> e \<le> e' \<and> odd m' \<and> (0 < m' \<longleftrightarrow> 0 < m)
            \<and> \<bar>m'\<bar> \<le> \<bar>m\<bar>
            \<and> rat_of_int m' * 2 powi e' = rat_of_int m * 2 powi e"
proof (induction m e rule: trim.induct)
  case (1 m e)
  show ?case
  proof (cases "even m")
    case False
    with "1.prems" have "trim m e = Finite m e" by (subst trim.simps) simp
    with False show ?thesis by simp
  next
    case True
    then obtain k where k: "m = 2 * k" by (auto elim: evenE)
    with "1.prems" have k0: "k \<noteq> 0" by simp
    have d: "m div 2 = k" using k by simp
    from "1.IH" [OF "1.prems" True] k0 d
    obtain m' e' where r: "trim k (e + 1) = Finite m' e'" "e + 1 \<le> e'" "odd m'"
        "0 < m' \<longleftrightarrow> 0 < k" "\<bar>m'\<bar> \<le> \<bar>k\<bar>"
        "rat_of_int m' * 2 powi e' = rat_of_int k * 2 powi (e + 1)"
      by auto
    have t: "trim m e = Finite m' e'"
      using "1.prems" True d r(1) by (subst trim.simps) simp
    have "(2::rat) powi (e + 1) = 2 powi e * 2" by (simp add: power_int_add)
    then have v: "rat_of_int m' * 2 powi e' = rat_of_int m * 2 powi e"
      using r(6) k by simp
    from t r(2,3,4,5) v k show ?thesis by auto
  qed
qed

lemma trim_exponent: "trim m e = Finite m' e' \<Longrightarrow> - 1074 \<le> e \<Longrightarrow> - 1074 \<le> e'"
proof (cases "m = 0")
  case True
  assume "trim m e = Finite m' e'"
  with True show ?thesis by (simp add: trim.simps)
next
  case False
  assume "trim m e = Finite m' e'" "- 1074 \<le> e"
  with trim_cases [OF False, of e] show ?thesis by auto
qed

lemma quantum_lower: "- 1074 \<le> quantum A b e"
  by (simp add: quantum_def)

lemma roundRatio_exponent: "roundRatio a b e = Finite m' e' \<Longrightarrow> - 1074 \<le> e'"
  by (auto simp: roundRatio_def pack_def split: if_splits
           intro: trim_exponent [OF _ quantum_lower])

lemma floorLog2_one:
  assumes "1 \<le> A"
  shows "0 \<le> floorLog2 A 1" and "2 ^ nat (floorLog2 A 1) \<le> A"
proof -
  have p: "0 < nat A" using assms by simp
  have l: "2 ^ (bitLength (nat A) - 1) \<le> nat A" by (rule bitLength_lower [OF p])
  have b: "0 < bitLength (nat A)" by (rule bitLength_pos [OF p])
  define d where "d = int (bitLength (nat A)) - int (bitLength (nat 1))"
  have d: "d = int (bitLength (nat A) - 1)" using b by (simp add: d_def bitLength_1)
  have "int (2 ^ (bitLength (nat A) - 1)) \<le> int (nat A)" using l by (rule iffD2 [OF of_nat_le_iff])
  then have c: "2 ^ nat d \<le> A" using assms by (simp add: d)
  have dd: "int (bitLength (nat A)) - int (bitLength (nat 1)) = d" by (simp add: d_def)
  have f: "floorLog2 A 1 = d"
    by (simp only: floorLog2_def Let_def dd) (use c d in simp)
  show "0 \<le> floorLog2 A 1" using f d by simp
  show "2 ^ nat (floorLog2 A 1) \<le> A" using f c by simp
qed

lemma roundQuotient_ge: "0 < den \<Longrightarrow> num div den \<le> roundQuotient num den"
  by (simp add: roundQuotient_def Let_def)

lemma scaledQuotient_one_pos:
  assumes "1 \<le> A" "- 1074 \<le> e"
  shows "0 < scaledQuotient A 1 (e - quantum A 1 e)"
proof (cases "0 \<le> e - quantum A 1 e")
  case True
  then have "scaledQuotient A 1 (e - quantum A 1 e) = A * 2 ^ nat (e - quantum A 1 e)"
    by (simp add: scaledQuotient_def roundQuotient_def)
  with assms(1) show ?thesis by simp
next
  case False
  define lg where "lg = floorLog2 A 1"
  have q: "quantum A 1 e = lg + e - 52" using False assms(2) by (simp add: quantum_def lg_def)
  then have s: "e - quantum A 1 e = 52 - lg" by simp
  with False have lg: "52 < lg" by simp
  have "(2::int) ^ nat (lg - 52) \<le> 2 ^ nat lg" by (rule power_increasing) simp_all
  also have "\<dots> \<le> A" unfolding lg_def by (rule floorLog2_one(2) [OF assms(1)])
  finally have "2 ^ nat (lg - 52) \<le> A" .
  then have "0 < A div 2 ^ nat (lg - 52)"
    by (simp add: pos_imp_zdiv_pos_iff)
  also have "\<dots> \<le> roundQuotient A (2 ^ nat (lg - 52))" by (rule roundQuotient_ge) simp
  finally have "0 < roundQuotient A (2 ^ nat (lg - 52))" .
  then show ?thesis using lg by (simp add: scaledQuotient_def s)
qed

lemma pack_sign: "0 < n \<Longrightarrow> isPositive (Number (pack neg n q)) \<longleftrightarrow> \<not> neg"
proof -
  assume n: "0 < n"
  then have a: "n \<noteq> 0" "- n \<noteq> 0" by simp_all
  from trim_cases [OF a(1), of q] trim_cases [OF a(2), of q] n
  show ?thesis by (auto simp: pack_def)
qed

lemma roundRatio_one_sign:
  assumes "- 1074 \<le> e"
  shows "isPositive (Number (roundRatio a 1 e)) \<longleftrightarrow> 0 < a"
proof (cases "a = 0")
  case True
  then show ?thesis by (simp add: roundRatio_def)
next
  case False
  then have "1 \<le> \<bar>a\<bar>" by simp
  from scaledQuotient_one_pos [OF this assms] False
  show ?thesis by (auto simp: roundRatio_def pack_sign)
qed

lemma numberSub_sign:
  assumes "finiteDouble x" "finiteDouble y"
  shows "isPositive (numberSub x y) \<longleftrightarrow> doubleValue y < doubleValue x"
proof -
  from assms obtain m1 e1 m2 e2 where x: "x = Finite m1 e1" "- 1074 \<le> e1"
    and y: "y = Finite m2 e2" "- 1074 \<le> e2"
    by (cases x; cases y) (auto simp: finiteDouble_def)
  have "isPositive (numberSub x y)
      \<longleftrightarrow> 0 < m1 * 2 ^ nat (e1 - min e1 e2) - m2 * 2 ^ nat (e2 - min e1 e2)"
    using x y by (simp add: roundRatio_one_sign)
  also have "\<dots> \<longleftrightarrow> m2 * 2 ^ nat (e2 - min e2 e1) < m1 * 2 ^ nat (e1 - min e2 e1)"
    by (simp add: min.commute)
  also have "\<dots> \<longleftrightarrow> doubleValue y < doubleValue x"
    unfolding scaled_less_iff by (simp add: x y doubleValue_def)
  finally show ?thesis .
qed

lemma bitLength_bounds_rat:
  assumes "0 < n"
  shows "(2::rat) powi (int (bitLength n) - 1) \<le> of_nat n"
    and "(of_nat n :: rat) < 2 powi int (bitLength n)"
proof -
  have p: "0 < bitLength n" by (rule bitLength_pos [OF assms])
  then have e: "int (bitLength n) - 1 = int (bitLength n - 1)" by simp
  have "(of_nat (2 ^ (bitLength n - 1)) :: rat) \<le> of_nat n"
    using bitLength_lower [OF assms] by (rule iffD2 [OF of_nat_le_iff])
  then show "(2::rat) powi (int (bitLength n) - 1) \<le> of_nat n"
    unfolding e power_int_of_nat by simp
  have "(of_nat n :: rat) < of_nat (2 ^ bitLength n)"
    using bitLength_upper [of n] by (rule iffD2 [OF of_nat_less_iff])
  then show "(of_nat n :: rat) < 2 powi int (bitLength n)"
    unfolding power_int_of_nat by simp
qed

lemma floorLog2_test:
  "(if 0 \<le> d then b * 2 ^ nat d \<le> A else b \<le> A * 2 ^ nat (- d))
     \<longleftrightarrow> rat_of_int b * 2 powi d \<le> rat_of_int A"
proof (cases "0 \<le> d")
  case True
  then have "rat_of_int b * 2 powi d = rat_of_int (b * 2 ^ nat d)"
    by (simp add: power_int_def)
  then show ?thesis using True by (simp only: of_int_le_iff if_True)
next
  case False
  then have "rat_of_int b * 2 powi d = rat_of_int b / 2 ^ nat (- d)"
    by (simp add: power_int_def field_simps)
  moreover have "rat_of_int b / 2 ^ nat (- d) \<le> rat_of_int A
      \<longleftrightarrow> rat_of_int b \<le> rat_of_int A * 2 ^ nat (- d)"
    by (simp add: pos_divide_le_eq)
  moreover have "rat_of_int A * 2 ^ nat (- d) = rat_of_int (A * 2 ^ nat (- d))" by simp
  ultimately show ?thesis using False by (simp only: of_int_le_iff if_False)
qed

lemma floorLog2_bounds:
  assumes "1 \<le> A" "1 \<le> b"
  shows "rat_of_int b * 2 powi floorLog2 A b \<le> rat_of_int A"
    and "rat_of_int A < rat_of_int b * 2 powi (floorLog2 A b + 1)"
proof -
  define LA where "LA = bitLength (nat A)"
  define LB where "LB = bitLength (nat b)"
  define d where "d = int LA - int LB"
  have pa: "0 < nat A" and pb: "0 < nat b" using assms by simp_all
  have na: "(of_nat (nat A) :: rat) = rat_of_int A" and nb: "(of_nat (nat b) :: rat) = rat_of_int b"
    using assms by simp_all
  have a1: "(2::rat) powi (int LA - 1) \<le> rat_of_int A" and a2: "rat_of_int A < 2 powi int LA"
    using bitLength_bounds_rat [OF pa] unfolding na LA_def by simp_all
  have b1: "(2::rat) powi (int LB - 1) \<le> rat_of_int b" and b2: "rat_of_int b < 2 powi int LB"
    using bitLength_bounds_rat [OF pb] unfolding nb LB_def by simp_all
  have f: "floorLog2 A b = (if rat_of_int b * 2 powi d \<le> rat_of_int A then d else d - 1)"
    unfolding floorLog2_def Let_def LA_def [symmetric] LB_def [symmetric] d_def [symmetric]
      floorLog2_test ..
  have up: "rat_of_int A < rat_of_int b * 2 powi (d + 1)"
  proof -
    have "(2::rat) powi int LA = 2 powi (int LB - 1) * 2 powi (d + 1)"
      unfolding d_def by (simp add: power_int_add [symmetric])
    also have "\<dots> \<le> rat_of_int b * 2 powi (d + 1)"
      using b1 by (rule mult_right_mono) simp
    finally have "(2::rat) powi int LA \<le> rat_of_int b * 2 powi (d + 1)" .
    with a2 show ?thesis by (rule less_le_trans)
  qed
  have low: "rat_of_int b * 2 powi (d - 1) \<le> rat_of_int A"
  proof -
    have "rat_of_int b * 2 powi (d - 1) \<le> 2 powi int LB * 2 powi (d - 1)"
      using b2 by (intro mult_right_mono) simp_all
    also have "\<dots> = 2 powi (int LB + (d - 1))"
      by (rule power_int_add [symmetric]) simp
    also have "int LB + (d - 1) = int LA - 1" by (simp add: d_def)
    finally have "rat_of_int b * 2 powi (d - 1) \<le> 2 powi (int LA - 1)" .
    then show ?thesis using a1 by (rule order_trans)
  qed
  show "rat_of_int b * 2 powi floorLog2 A b \<le> rat_of_int A"
    using f low by (cases "rat_of_int b * 2 powi d \<le> rat_of_int A") simp_all
  show "rat_of_int A < rat_of_int b * 2 powi (floorLog2 A b + 1)"
    using f up by (cases "rat_of_int b * 2 powi d \<le> rat_of_int A") simp_all
qed

lemma roundQuotient_nearest:
  assumes "0 < den"
  shows "\<bar>rat_of_int num / rat_of_int den - rat_of_int (roundQuotient num den)\<bar> \<le> 1 / 2"
    and "\<bar>rat_of_int num / rat_of_int den - rat_of_int (roundQuotient num den)\<bar> = 1 / 2
           \<Longrightarrow> even (roundQuotient num den)"
proof -
  define n0 where "n0 = num div den"
  define r where "r = num mod den"
  have r: "0 \<le> r" "r < den" using assms by (simp_all add: r_def)
  have num: "num = den * n0 + r" by (simp add: n0_def r_def)
  have d: "(0::rat) < rat_of_int den" using assms by simp
  have q: "rat_of_int num / rat_of_int den = rat_of_int n0 + rat_of_int r / rat_of_int den"
    using d by (simp add: num field_simps)
  have rq: "roundQuotient num den
      = (if 2 * r > den \<or> (2 * r = den \<and> odd n0) then n0 + 1 else n0)"
    by (simp add: roundQuotient_def Let_def n0_def r_def)
  define t where "t = rat_of_int r / rat_of_int den"
  have t: "0 \<le> t" "t < 1" using r d by (simp_all add: t_def)
  have h1: "t < 1 / 2 \<longleftrightarrow> 2 * r < den"
  proof -
    have "t < 1 / 2 \<longleftrightarrow> rat_of_int (2 * r) < rat_of_int den"
      using d by (simp add: t_def field_simps)
    then show ?thesis by (simp only: of_int_less_iff)
  qed
  have h2: "t = 1 / 2 \<longleftrightarrow> 2 * r = den"
  proof -
    have "t = 1 / 2 \<longleftrightarrow> rat_of_int (2 * r) = rat_of_int den"
      using d by (auto simp: t_def field_simps)
    then show ?thesis by (simp only: of_int_eq_iff)
  qed
  have diff: "rat_of_int num / rat_of_int den - rat_of_int (roundQuotient num den)
      = (if 2 * r > den \<or> (2 * r = den \<and> odd n0) then t - 1 else t)"
    unfolding q rq t_def by simp
  consider (up) "2 * r > den" | (tie) "2 * r = den" | (down) "2 * r < den" by linarith
  then have both:
    "\<bar>rat_of_int num / rat_of_int den - rat_of_int (roundQuotient num den)\<bar> \<le> 1 / 2
   \<and> (\<bar>rat_of_int num / rat_of_int den - rat_of_int (roundQuotient num den)\<bar> = 1 / 2
        \<longrightarrow> even (roundQuotient num den))"
  proof cases
    case up
    then have "\<not> t < 1 / 2" "t \<noteq> 1 / 2" using h1 h2 by simp_all
    then have "1 / 2 < t" by simp
    with t up show ?thesis unfolding diff by simp
  next
    case tie
    then have h: "t = 1 / 2" using h2 by simp
    have e: "even (roundQuotient num den)" unfolding rq using tie by simp
    have "\<bar>rat_of_int num / rat_of_int den - rat_of_int (roundQuotient num den)\<bar> \<le> 1 / 2"
      unfolding diff using h by simp
    with e show ?thesis by simp
  next
    case down
    then have "t < 1 / 2" using h1 by simp
    with t down show ?thesis unfolding diff by simp
  qed
  from both show "\<bar>rat_of_int num / rat_of_int den - rat_of_int (roundQuotient num den)\<bar> \<le> 1 / 2"
    by simp
  from both show "even (roundQuotient num den)"
    if "\<bar>rat_of_int num / rat_of_int den - rat_of_int (roundQuotient num den)\<bar> = 1 / 2"
    using that by simp
qed


lemma scaledQuotient_ratio:
  assumes "0 < b"
  shows "\<exists>num den. 0 < den \<and> scaledQuotient A b s = roundQuotient num den
           \<and> (0 \<le> A \<longrightarrow> 0 \<le> num)
           \<and> rat_of_int num / rat_of_int den = rat_of_int A / rat_of_int b * 2 powi s"
proof (cases "0 \<le> s")
  case True
  have "rat_of_int (A * 2 ^ nat s) / rat_of_int b = rat_of_int A / rat_of_int b * 2 powi s"
    using True by (simp add: power_int_def)
  moreover have "scaledQuotient A b s = roundQuotient (A * 2 ^ nat s) b"
    using True by (simp add: scaledQuotient_def)
  moreover have "0 \<le> A \<longrightarrow> 0 \<le> A * 2 ^ nat s" by simp
  ultimately show ?thesis using assms by blast
next
  case False
  have "rat_of_int A / rat_of_int (b * 2 ^ nat (- s)) = rat_of_int A / rat_of_int b * 2 powi s"
    using False by (simp add: power_int_def field_simps)
  moreover have "scaledQuotient A b s = roundQuotient A (b * 2 ^ nat (- s))"
    using False by (simp add: scaledQuotient_def)
  moreover have "0 < b * 2 ^ nat (- s)" using assms by simp
  ultimately show ?thesis by blast
qed

lemma roundQuotient_nonneg: "0 < den \<Longrightarrow> 0 \<le> num \<Longrightarrow> 0 \<le> roundQuotient num den"
  using roundQuotient_ge [of den num] pos_imp_zdiv_nonneg_iff [of den num] by simp

lemma scaledQuotient_nearest:
  assumes "0 < b"
  shows "\<bar>rat_of_int A / rat_of_int b * 2 powi s - rat_of_int (scaledQuotient A b s)\<bar> \<le> 1 / 2"
    and "\<bar>rat_of_int A / rat_of_int b * 2 powi s - rat_of_int (scaledQuotient A b s)\<bar> = 1 / 2
           \<Longrightarrow> even (scaledQuotient A b s)"
    and "0 \<le> A \<Longrightarrow> 0 \<le> scaledQuotient A b s"
proof -
  from scaledQuotient_ratio [OF assms, of A s] obtain num den where
    d: "0 < den" and q: "scaledQuotient A b s = roundQuotient num den"
    and n: "0 \<le> A \<longrightarrow> 0 \<le> num"
    and r: "rat_of_int num / rat_of_int den = rat_of_int A / rat_of_int b * 2 powi s"
    by blast
  show "\<bar>rat_of_int A / rat_of_int b * 2 powi s - rat_of_int (scaledQuotient A b s)\<bar> \<le> 1 / 2"
    unfolding q r [symmetric] by (rule roundQuotient_nearest(1) [OF d])
  show "even (scaledQuotient A b s)"
    if "\<bar>rat_of_int A / rat_of_int b * 2 powi s - rat_of_int (scaledQuotient A b s)\<bar> = 1 / 2"
    using that unfolding q r [symmetric] by (rule roundQuotient_nearest(2) [OF d])
  show "0 \<le> scaledQuotient A b s" if "0 \<le> A"
    unfolding q using that n by (intro roundQuotient_nonneg [OF d]) simp
qed

lemma quantum_bounds:
  assumes "1 \<le> A" "1 \<le> b"
  shows "(quantum A b e = - 1074 \<and> rat_of_int A / rat_of_int b * 2 powi e < 2 powi (- 1022))
       \<or> (2 powi (quantum A b e + 52) \<le> rat_of_int A / rat_of_int b * 2 powi e
          \<and> rat_of_int A / rat_of_int b * 2 powi e < 2 powi (quantum A b e + 53))"
proof -
  define lg where "lg = floorLog2 A b"
  define x where "x = rat_of_int A / rat_of_int b * 2 powi e"
  have b: "(0::rat) < rat_of_int b" using assms(2) by simp
  have p: "(0::rat) < 2 powi e" by simp
  from floorLog2_bounds [OF assms] b
  have "2 powi lg \<le> rat_of_int A / rat_of_int b" "rat_of_int A / rat_of_int b < 2 powi (lg + 1)"
    by (simp_all add: lg_def pos_le_divide_eq pos_divide_less_eq mult.commute)
  then have "2 powi lg * 2 powi e \<le> x" "x < 2 powi (lg + 1) * 2 powi e"
    unfolding x_def using p by (simp_all only: mult_le_cancel_right_pos mult_less_cancel_right_pos)
  moreover have "(2::rat) powi lg * 2 powi e = 2 powi (lg + e)"
    by (rule power_int_add [symmetric]) simp
  moreover have "(2::rat) powi (lg + 1) * 2 powi e = 2 powi (lg + e + 1)"
    by (simp add: power_int_add [symmetric] add.commute add.left_commute)
  ultimately have x: "2 powi (lg + e) \<le> x" "x < 2 powi (lg + e + 1)" by simp_all
  have "(quantum A b e = - 1074 \<and> x < 2 powi (- 1022))
       \<or> (2 powi (quantum A b e + 52) \<le> x \<and> x < 2 powi (quantum A b e + 53))"
  proof (cases "- 1074 \<le> lg + e - 52")
    case True
    then have k: "quantum A b e + 52 = lg + e" "quantum A b e + 53 = lg + e + 1"
      by (simp_all add: quantum_def lg_def)
    from x show ?thesis unfolding k by blast
  next
    case False
    then have q: "quantum A b e = - 1074" by (simp add: quantum_def lg_def)
    have "(2::rat) powi (lg + e + 1) \<le> 2 powi (- 1022)"
      by (rule power_int_increasing) (use False in simp_all)
    with x(2) have "x < 2 powi (- 1022)" by (rule less_le_trans)
    with q show ?thesis by blast
  qed
  then show ?thesis unfolding x_def .
qed

lemma pack_value:
  assumes "0 \<le> n" "pack neg n q = Finite m' e'"
  shows "doubleValue (Finite m' e') = (if neg then - 1 else 1) * rat_of_int n * 2 powi q"
    and "q < 971 \<or> (q = 971 \<and> n < 2 ^ 53)"
proof -
  from assms show o: "q < 971 \<or> (q = 971 \<and> n < 2 ^ 53)"
    by (auto simp: pack_def split: if_splits)
  then have t: "trim (if neg then - n else n) q = Finite m' e'"
    using assms(2) by (auto simp: pack_def split: if_splits)
  show "doubleValue (Finite m' e') = (if neg then - 1 else 1) * rat_of_int n * 2 powi q"
  proof (cases "n = 0")
    case True
    then have "(if neg then - n else n) = 0" by simp
    then have "trim (if neg then - n else n) q = Finite 0 0" by (simp add: trim.simps)
    with t True show ?thesis by (simp add: doubleValue_def)
  next
    case False
    then have "(if neg then - n else n) \<noteq> 0" by simp
    from trim_cases [OF this, of q] t show ?thesis by (auto simp: doubleValue_def)
  qed
qed

lemma pack_infinite:
  "pack neg n q = PosInf \<or> pack neg n q = NegInf
     \<Longrightarrow> pack neg n q = (if neg then NegInf else PosInf)
         \<and> (971 < q \<or> (q = 971 \<and> 2 ^ 53 \<le> n))"
proof (cases "971 < q \<or> (q = 971 \<and> 2 ^ 53 \<le> n)")
  case True
  then show ?thesis by (simp add: pack_def)
next
  case False
  assume inf: "pack neg n q = PosInf \<or> pack neg n q = NegInf"
  from False have p: "pack neg n q = trim (if neg then - n else n) q" by (auto simp: pack_def)
  show ?thesis
  proof (cases "(if neg then - n else n) = 0")
    case True
    with p inf show ?thesis by (simp add: trim.simps)
  next
    case nz: False
    from trim_cases [OF nz, of q] p inf show ?thesis by auto
  qed
qed

lemma roundRatio_nearest:
  assumes "0 < b" "a \<noteq> 0"
  shows "\<exists>n. 0 \<le> n \<and> roundRatio a b e = pack (a < 0) n (quantum \<bar>a\<bar> b e)
       \<and> \<bar>rat_of_int \<bar>a\<bar> / rat_of_int b * 2 powi (e - quantum \<bar>a\<bar> b e) - rat_of_int n\<bar> \<le> 1 / 2
       \<and> (\<bar>rat_of_int \<bar>a\<bar> / rat_of_int b * 2 powi (e - quantum \<bar>a\<bar> b e) - rat_of_int n\<bar> = 1 / 2
            \<longrightarrow> even n)"
proof -
  let ?n = "scaledQuotient \<bar>a\<bar> b (e - quantum \<bar>a\<bar> b e)"
  have "roundRatio a b e = pack (a < 0) ?n (quantum \<bar>a\<bar> b e)"
    using assms(2) by (simp add: roundRatio_def)
  moreover have "0 \<le> ?n" by (rule scaledQuotient_nearest(3) [OF assms(1)]) simp
  ultimately show ?thesis
    using scaledQuotient_nearest(1,2) [OF assms(1), of "\<bar>a\<bar>" "e - quantum \<bar>a\<bar> b e"]
    by blast
qed

lemma roundRatio_error:
  assumes "0 < b" "roundRatio a b e = Finite m' e'"
  shows "\<bar>doubleValue (Finite m' e') - rat_of_int a / rat_of_int b * 2 powi e\<bar>
           \<le> 2 powi (quantum \<bar>a\<bar> b e) / 2"
proof (cases "a = 0")
  case True
  with assms(2) show ?thesis by (simp add: roundRatio_def doubleValue_def)
next
  case False
  define q where "q = quantum \<bar>a\<bar> b e"
  define X where "X = rat_of_int \<bar>a\<bar> / rat_of_int b * 2 powi (e - q)"
  define sg :: rat where "sg = (if a < 0 then - 1 else 1)"
  from roundRatio_nearest [OF assms(1) False, of e] obtain n where
    n: "0 \<le> n" "roundRatio a b e = pack (a < 0) n q" "\<bar>X - rat_of_int n\<bar> \<le> 1 / 2"
    unfolding q_def X_def by blast
  from pack_value(1) [OF n(1), of "a < 0" q m' e'] n(2) assms(2)
  have v: "doubleValue (Finite m' e') = sg * rat_of_int n * 2 powi q"
    by (simp add: sg_def)
  have p: "(2::rat) powi (e - q) * 2 powi q = 2 powi e"
    by (simp add: power_int_add [symmetric])
  have "rat_of_int a = sg * rat_of_int \<bar>a\<bar>" by (simp add: sg_def)
  then have "rat_of_int a / rat_of_int b * 2 powi e = sg * (X * 2 powi q)"
    unfolding X_def p [symmetric] by (simp add: mult.assoc)
  then have "doubleValue (Finite m' e') - rat_of_int a / rat_of_int b * 2 powi e
      = sg * ((rat_of_int n - X) * 2 powi q)"
    unfolding v by (simp add: algebra_simps)
  then have "\<bar>doubleValue (Finite m' e') - rat_of_int a / rat_of_int b * 2 powi e\<bar>
      = \<bar>X - rat_of_int n\<bar> * 2 powi q"
    by (simp add: abs_mult sg_def abs_minus_commute)
  also have "\<dots> \<le> 1 / 2 * 2 powi q"
    using n(3) by (rule mult_right_mono) simp
  finally show ?thesis by (simp add: q_def)
qed

lemma bitLength_le: "n < 2 ^ k \<Longrightarrow> bitLength n \<le> k"
proof (cases "n = 0")
  case True
  then show ?thesis by (simp add: bitLength.simps)
next
  case False
  assume "n < 2 ^ k"
  moreover have "2 ^ (bitLength n - 1) \<le> n" by (rule bitLength_lower) (use False in simp)
  ultimately have lt: "(2::nat) ^ (bitLength n - 1) < 2 ^ k" by linarith
  have "bitLength n - 1 < k" by (rule power_less_imp_less_exp [OF _ lt]) simp
  then show ?thesis by simp
qed

lemma floorLog2_le: "floorLog2 A b \<le> int (bitLength (nat A))"
  by (simp add: floorLog2_def Let_def)

lemma roundRatio_small_finite:
  assumes "\<bar>a\<bar> < 2 ^ 1000" and that: "e0 \<le> 0"
  shows "finiteDouble (roundRatio a b e0)"
proof (cases "a = 0")
  case True
  then show ?thesis by (simp add: roundRatio_def finiteDouble_def)
next
  case False
  have "nat \<bar>a\<bar> < 2 ^ 1000" using assms by (simp add: nat_less_iff)
  then have "bitLength (nat \<bar>a\<bar>) \<le> 1000" by (rule bitLength_le)
  with floorLog2_le [of "\<bar>a\<bar>" b] have "floorLog2 \<bar>a\<bar> b \<le> 1000" by simp
  then have q: "quantum \<bar>a\<bar> b e0 < 971" using that by (simp add: quantum_def)
  define n where "n = scaledQuotient \<bar>a\<bar> b (e0 - quantum \<bar>a\<bar> b e0)"
  have r: "roundRatio a b e0 = trim (if a < 0 then - n else n) (quantum \<bar>a\<bar> b e0)"
    using False q by (simp add: roundRatio_def pack_def n_def)
  show ?thesis
  proof (cases "(if a < 0 then - n else n) = 0")
    case True
    then show ?thesis unfolding r by (simp add: trim.simps finiteDouble_def)
  next
    case nz: False
    from trim_cases [OF nz, of "quantum \<bar>a\<bar> b e0"] quantum_lower [of "\<bar>a\<bar>" b e0]
    show ?thesis unfolding r by (auto simp: finiteDouble_def)
  qed
qed

text \<open>
  The power levels 10, 30, 7.8, 12.2, 0.01 and 0.49 dBm as the parser stores them, and the
  differences of 7.8 and 12.2 to 10 and of 0.01 and 0.49 to 0.25, as the binary64
  arithmetic gives them.
\<close>

lemma roundRatio_examples:
  "roundRatio 1000 100 0 = Finite 5 1"
  "roundRatio 3000 100 0 = Finite 15 1"
  "roundRatio 780 100 0 = Finite 8782019273372467 (- 50)"
  "roundRatio 1220 100 0 = Finite 3433994715870003 (- 48)"
  "roundRatio 1 100 0 = Finite 5764607523034235 (- 59)"
  "roundRatio 49 100 0 = Finite 2206763817411543 (- 52)"
  by (simp_all add: double_eval)

lemma numberSub_examples:
  "numberSub (Finite 8782019273372467 (- 50)) (Finite 5 1) = Number (Finite (- 2476979795053773) (- 50))"
  "numberSub (Finite 3433994715870003 (- 48)) (Finite 5 1) = Number (Finite 619244948763443 (- 48))"
  "numberSub (Finite 5764607523034235 (- 59)) (Finite 1 (- 2)) = Number (Finite (- 1080863910568919) (- 52))"
  "numberSub (Finite 2206763817411543 (- 52)) (Finite 1 (- 2)) = Number (Finite 1080863910568919 (- 52))"
  by (simp_all add: double_eval)

section \<open>Properties of the power index\<close>

lemma diffTo_Finite: "\<exists>d. diffTo (Finite m e) x = Number d"
  by (cases "powerDbm x") (simp_all add: Let_def mathAbs_Number)

lemma diffTo_infinite:
  "t = PosInf \<or> t = NegInf \<Longrightarrow> diffTo t x = NaN \<or> diffTo t x = Number PosInf"
  by (cases "powerDbm x") auto

lemma diffTo_negtrans:
  assumes "\<not> numberLess (diffTo t x) (diffTo t y)" "\<not> numberLess (diffTo t y) (diffTo t z)"
  shows "\<not> numberLess (diffTo t x) (diffTo t z)"
proof (cases t)
  case (Finite m e)
  obtain dx dy dz where "diffTo t x = Number dx" "diffTo t y = Number dy" "diffTo t z = Number dz"
    using diffTo_Finite [where m = m and e = e and x = x]
      diffTo_Finite [where m = m and e = e and x = y]
      diffTo_Finite [where m = m and e = e and x = z] Finite
    by auto
  with assms show ?thesis using numberLess_Number_negtrans by metis
next
  case PosInf
  then show ?thesis
    using diffTo_infinite [of t x] diffTo_infinite [of t z] by auto
next
  case NegInf
  then show ?thesis
    using diffTo_infinite [of t x] diffTo_infinite [of t z] by auto
qed

lemma closestLoop_first_min:
  assumes "c = pre ! k" "k < length pre" "m = diffTo t c"
    and "\<forall>j < length pre. \<not> numberLess (diffTo t (pre ! j)) m"
    and "\<forall>j < k. numberLess m (diffTo t (pre ! j))"
  shows "\<exists>i < length (pre @ es).
           closestLoop es t c m = (pre @ es) ! i
         \<and> (\<forall>j < length (pre @ es).
               \<not> numberLess (diffTo t ((pre @ es) ! j)) (diffTo t ((pre @ es) ! i)))
         \<and> (\<forall>j < i. numberLess (diffTo t ((pre @ es) ! i)) (diffTo t ((pre @ es) ! j)))"
  using assms
proof (induction es arbitrary: pre c k m)
  case Nil
  then show ?case by auto
next
  case (Cons e es)
  let ?pre = "pre @ [e]"
  let ?d = "diffTo t e"
  show ?case
  proof (cases "numberLess ?d m")
    case True
    have a: "e = ?pre ! length pre" by simp
    have b: "\<forall>j < length ?pre. \<not> numberLess (diffTo t (?pre ! j)) ?d"
    proof (intro allI impI)
      fix j assume j: "j < length ?pre"
      show "\<not> numberLess (diffTo t (?pre ! j)) ?d"
      proof (cases "j < length pre")
        case jl: True
        then have "\<not> numberLess (diffTo t (pre ! j)) m" using Cons.prems(4) by simp
        with True have "\<not> numberLess (diffTo t (pre ! j)) ?d"
          using numberLess_trans by blast
        with jl show ?thesis by (simp add: nth_append)
      next
        case False
        with j have "j = length pre" by simp
        then show ?thesis by (simp add: numberLess_irrefl)
      qed
    qed
    have c: "\<forall>j < length pre. numberLess ?d (diffTo t (?pre ! j))"
    proof (intro allI impI)
      fix j assume j: "j < length pre"
      then have n: "\<not> numberLess (diffTo t (pre ! j)) (diffTo t c)"
        using Cons.prems(3,4) by simp
      have "numberLess ?d (diffTo t (pre ! j))"
      proof (rule ccontr)
        assume "\<not> numberLess ?d (diffTo t (pre ! j))"
        from diffTo_negtrans [OF this n] True Cons.prems(3) show False by simp
      qed
      with j show "numberLess ?d (diffTo t (?pre ! j))" by (simp add: nth_append)
    qed
    have "\<exists>i < length (?pre @ es).
           closestLoop es t e ?d = (?pre @ es) ! i
         \<and> (\<forall>j < length (?pre @ es).
               \<not> numberLess (diffTo t ((?pre @ es) ! j)) (diffTo t ((?pre @ es) ! i)))
         \<and> (\<forall>j < i. numberLess (diffTo t ((?pre @ es) ! i)) (diffTo t ((?pre @ es) ! j)))"
      by (rule Cons.IH [where pre = ?pre and k = "length pre"]) (use a b c in auto)
    with True show ?thesis by simp
  next
    case False
    have a: "c = ?pre ! k" using Cons.prems(1,2) by (simp add: nth_append)
    have b: "\<forall>j < length ?pre. \<not> numberLess (diffTo t (?pre ! j)) m"
      using Cons.prems(4) False by (auto simp: nth_append less_Suc_eq)
    have c: "\<forall>j < k. numberLess m (diffTo t (?pre ! j))"
      using Cons.prems(2,5) by (auto simp: nth_append)
    have "\<exists>i < length (?pre @ es).
           closestLoop es t c m = (?pre @ es) ! i
         \<and> (\<forall>j < length (?pre @ es).
               \<not> numberLess (diffTo t ((?pre @ es) ! j)) (diffTo t ((?pre @ es) ! i)))
         \<and> (\<forall>j < i. numberLess (diffTo t ((?pre @ es) ! i)) (diffTo t ((?pre @ es) ! j)))"
      by (rule Cons.IH [where pre = ?pre and k = k])
         (use a b c Cons.prems(2,3) in auto)
    with False show ?thesis by simp
  qed
qed

lemma findClosestPowerIndex_position:
  assumes "table \<noteq> []"
  shows "\<exists>i < length table.
          findClosestPowerIndex table t = index (table ! i)
        \<and> (\<forall>j < length table.
              \<not> numberLess (diffTo t (table ! j)) (diffTo t (table ! i)))
        \<and> (\<forall>j < i. numberLess (diffTo t (table ! i)) (diffTo t (table ! j)))"
proof -
  from assms obtain e es where Cons: "table = e # es" by (cases table) auto
  have "\<exists>i < length ([e] @ es).
           closestLoop es t e (diffTo t e) = ([e] @ es) ! i
         \<and> (\<forall>j < length ([e] @ es).
               \<not> numberLess (diffTo t (([e] @ es) ! j)) (diffTo t (([e] @ es) ! i)))
         \<and> (\<forall>j < i. numberLess (diffTo t (([e] @ es) ! i)) (diffTo t (([e] @ es) ! j)))"
    by (rule closestLoop_first_min [where k = 0]) (auto simp: numberLess_irrefl)
  then show ?thesis
    using Cons by (auto simp: findClosestPowerIndex_def numberLess_irrefl)
qed


lemma findClosestPowerIndex_lower_index:
  assumes "table \<noteq> []" and "sorted_wrt (\<lambda>a b. index a < index b) table"
    and "j < length table"
    and "\<forall>k < length table. \<not> numberLess (diffTo t (table ! k)) (diffTo t (table ! j))"
  shows "findClosestPowerIndex table t \<le> index (table ! j)"
proof -
  from findClosestPowerIndex_position [OF assms(1), of t] obtain i where
    i: "i < length table" "findClosestPowerIndex table t = index (table ! i)"
    and first: "\<forall>j < i. numberLess (diffTo t (table ! i)) (diffTo t (table ! j))"
    by blast
  have "\<not> j < i"
  proof
    assume "j < i"
    with first have "numberLess (diffTo t (table ! i)) (diffTo t (table ! j))" by simp
    moreover from assms(4) i(1)
    have "\<not> numberLess (diffTo t (table ! i)) (diffTo t (table ! j))" by simp
    ultimately show False by simp
  qed
  then have "i = j \<or> i < j" by auto
  then show ?thesis
  proof
    assume "i = j"
    with i(2) show ?thesis by simp
  next
    assume "i < j"
    with sorted_wrt_nth_less [OF assms(2) this assms(3)] i(2) show ?thesis by simp
  qed
qed

lemma mathRound_floor: "mathRound m e = \<lfloor>rat_of_int m * 2 powi e + 1 / 2\<rfloor>"
proof (cases "e \<ge> 0")
  case True
  then have "rat_of_int m * 2 powi e = of_int (m * 2 ^ nat e)"
    by (simp add: power_int_def)
  then have "\<lfloor>rat_of_int m * 2 powi e + 1 / 2\<rfloor> = m * 2 ^ nat e"
    by (simp only: floor_add_int floor_of_int) linarith
  with True show ?thesis by (simp add: mathRound_def)
next
  case False
  define k where "k = nat (- e) - 1"
  have e: "nat (- e) = Suc k" using False by (simp add: k_def)
  have "rat_of_int m * 2 powi e = of_int m / 2 ^ Suc k"
    using False e by (simp add: power_int_def field_simps)
  then have "rat_of_int m * 2 powi e + 1 / 2 = of_int (m + 2 ^ k) / of_int (2 ^ Suc k)"
    by (simp add: field_simps)
  then have "\<lfloor>rat_of_int m * 2 powi e + 1 / 2\<rfloor> = (m + 2 ^ k) div 2 ^ Suc k"
    by (simp only: floor_divide_of_int_eq)
  with False e show ?thesis by (simp add: mathRound_def k_def)
qed

text \<open>
  Two tables on which the rounding decides: 7.8 and 12.2 dBm are equally far from 10 dBm
  and 27.95 and 32.05 dBm from 30 dBm, and the computed difference of the second entry is
  the smaller one.
\<close>

lemma findClosestPowerIndex_examples:
  "findClosestPowerIndex
     [\<lparr>index = 1, powerDbm = roundRatio 780 100 0\<rparr>, \<lparr>index = 2, powerDbm = roundRatio 1220 100 0\<rparr>]
     (Finite 5 1) = 2"
  "findClosestPowerIndex
     [\<lparr>index = 1, powerDbm = roundRatio 2795 100 0\<rparr>, \<lparr>index = 2, powerDbm = roundRatio 3205 100 0\<rparr>]
     (Finite 15 1) = 2"
  by (simp_all add: findClosestPowerIndex_def double_eval)

text \<open>
  Claim C3, as the code has it. With an empty power table the index is the target rounded
  by \<open>Math.round\<close> (the floor of the target plus one half) and clamped to 1..100. With a
  non-empty table the result is the \<open>index\<close> field of the entry at a position \<open>i\<close> of the
  table whose difference to the target, as the code computes it in binary64 arithmetic
  (\<open>Math.abs(entry.powerDbm - desiredDbm)\<close>, the subtraction rounded), is minimal over the
  whole table: no entry has a smaller computed difference, and every entry at an earlier
  position has a strictly greater one. Among entries with the same minimal computed
  difference the one at the lowest position of the table wins (the table is kept sorted
  by \<open>powerDbm\<close>, so that is the one with the lowest power). When the \<open>index\<close> fields grow
  along the table, that entry is also the one with the lowest index among those with the
  minimal computed difference.
\<close>

theorem findClosestPowerIndex_first_closest:
  "(table = [] \<longrightarrow>
      findClosestPowerIndex table t =
        (case t of
           Finite m e \<Rightarrow> nat (min (max 1 \<lfloor>doubleValue t + 1 / 2\<rfloor>) 100)
         | PosInf \<Rightarrow> 100
         | NegInf \<Rightarrow> 1))
 \<and> (table \<noteq> [] \<longrightarrow>
      (\<exists>i < length table.
          findClosestPowerIndex table t = index (table ! i)
        \<and> (\<forall>j < length table.
              \<not> numberLess (diffTo t (table ! j)) (diffTo t (table ! i)))
        \<and> (\<forall>j < i. numberLess (diffTo t (table ! i)) (diffTo t (table ! j)))))
 \<and> (table \<noteq> [] \<and> sorted_wrt (\<lambda>a b. index a < index b) table \<longrightarrow>
      (\<forall>j < length table.
          (\<forall>k < length table. \<not> numberLess (diffTo t (table ! k)) (diffTo t (table ! j)))
          \<longrightarrow> findClosestPowerIndex table t \<le> index (table ! j)))"
proof (intro conjI impI allI)
  assume "table = []"
  then show "findClosestPowerIndex table t =
        (case t of
           Finite m e \<Rightarrow> nat (min (max 1 \<lfloor>doubleValue t + 1 / 2\<rfloor>) 100)
         | PosInf \<Rightarrow> 100
         | NegInf \<Rightarrow> 1)"
    by (cases t) (simp_all add: findClosestPowerIndex_def doubleValue_def mathRound_floor)
next
  assume "table \<noteq> []"
  then show "\<exists>i < length table.
          findClosestPowerIndex table t = index (table ! i)
        \<and> (\<forall>j < length table.
              \<not> numberLess (diffTo t (table ! j)) (diffTo t (table ! i)))
        \<and> (\<forall>j < i. numberLess (diffTo t (table ! i)) (diffTo t (table ! j)))"
    by (rule findClosestPowerIndex_position)
next
  fix j
  assume "table \<noteq> [] \<and> sorted_wrt (\<lambda>a b. index a < index b) table" "j < length table"
    "\<forall>k < length table. \<not> numberLess (diffTo t (table ! k)) (diffTo t (table ! j))"
  then show "findClosestPowerIndex table t \<le> index (table ! j)"
    by (intro findClosestPowerIndex_lower_index) simp_all
qed

theorem findClosestPowerIndex_first_closest_witness:
  "[\<lparr>index = 1, powerDbm = Finite 5 1\<rparr>, \<lparr>index = 200, powerDbm = Finite 15 1\<rparr>] \<noteq> []
 \<and> sorted_wrt (\<lambda>a b. index a < index b)
       [\<lparr>index = 1, powerDbm = Finite 5 1\<rparr>, \<lparr>index = 200, powerDbm = Finite 15 1\<rparr>]
 \<and> findClosestPowerIndex
       [\<lparr>index = 1, powerDbm = Finite 5 1\<rparr>, \<lparr>index = 200, powerDbm = Finite 15 1\<rparr>]
       (Finite 15 1) = 200
 \<and> findClosestPowerIndex [] (Finite 15 1) = 30
 \<and> (\<exists>i < length [\<lparr>index = 1, powerDbm = Finite 5 1\<rparr>, \<lparr>index = 200, powerDbm = Finite 15 1\<rparr>].
        findClosestPowerIndex
          [\<lparr>index = 1, powerDbm = Finite 5 1\<rparr>, \<lparr>index = 200, powerDbm = Finite 15 1\<rparr>]
          (Finite 15 1)
          = index ([\<lparr>index = 1, powerDbm = Finite 5 1\<rparr>,
                    \<lparr>index = 200, powerDbm = Finite 15 1\<rparr>] ! i)
      \<and> (\<forall>j < i. numberLess
            (diffTo (Finite 15 1)
               ([\<lparr>index = 1, powerDbm = Finite 5 1\<rparr>, \<lparr>index = 200, powerDbm = Finite 15 1\<rparr>] ! i))
            (diffTo (Finite 15 1)
               ([\<lparr>index = 1, powerDbm = Finite 5 1\<rparr>, \<lparr>index = 200, powerDbm = Finite 15 1\<rparr>] ! j))))
 \<and> findClosestPowerIndex
       [\<lparr>index = 1, powerDbm = Finite 5 1\<rparr>, \<lparr>index = 200, powerDbm = Finite 15 1\<rparr>]
       (Finite 5 2)
       \<le> index ([\<lparr>index = 1, powerDbm = Finite 5 1\<rparr>, \<lparr>index = 200, powerDbm = Finite 15 1\<rparr>] ! 1)"
  (is "?T \<noteq> [] \<and> ?S \<and> ?A \<and> ?B \<and> ?C \<and> ?D")
proof -
  have ne: "?T \<noteq> []" by simp
  have s: ?S by simp
  have a: ?A by (simp add: findClosestPowerIndex_def double_eval)
  have "mathRound 15 1 = 30" by (simp add: mathRound_def)
  then have r: "\<lfloor>doubleValue (Finite 15 1) + 1 / 2\<rfloor> = 30"
    using mathRound_floor [of 15 1] by (simp add: doubleValue_def)
  have b: ?B
    using findClosestPowerIndex_first_closest [of "[]" "Finite 15 1"] by (simp add: r)
  have c: ?C
    using findClosestPowerIndex_first_closest [of ?T "Finite 15 1"] ne by blast
  have m: "\<forall>k < length ?T. \<not> numberLess (diffTo (Finite 5 2) (?T ! k)) (diffTo (Finite 5 2) (?T ! 1))"
    by (simp add: less_Suc_eq nth_Cons' double_eval)
  have l: "1 < length ?T" by simp
  have d: ?D
    using findClosestPowerIndex_first_closest [of ?T "Finite 5 2"] ne s m l by blast
  from ne s a b c d show ?thesis by blast
qed

text \<open>
  The claim as written lets the entry with the lower \<open>index\<close> field win a tie. In a table
  whose indices do not grow with the power, the code returns the higher index: the levels
  10 dBm (index 2) and 30 dBm (index 1) are equally far from 20 dBm, and the result is 2.

  The claim as written also compares the exact differences. The code compares the rounded
  ones: the doubles nearest to 0.01 (index 1) and 0.49 (index 2) both have the computed
  difference 0.24 to the target 0.25, so the first one is kept, and the second one is
  strictly nearer to the target.
\<close>

theorem findClosestPowerIndex_tie_counterexample:
  "findClosestPowerIndex
     [\<lparr>index = 2, powerDbm = Finite 5 1\<rparr>, \<lparr>index = 1, powerDbm = Finite 15 1\<rparr>] (Finite 5 2) = 2
 \<and> diffTo (Finite 5 2) \<lparr>index = 1, powerDbm = Finite 15 1\<rparr>
     = diffTo (Finite 5 2) \<lparr>index = 2, powerDbm = Finite 5 1\<rparr>
 \<and> index \<lparr>index = 1, powerDbm = Finite 15 1\<rparr> < (2::nat)
 \<and> findClosestPowerIndex
     [\<lparr>index = 1, powerDbm = roundRatio 1 100 0\<rparr>, \<lparr>index = 2, powerDbm = roundRatio 49 100 0\<rparr>]
     (Finite 1 (- 2)) = 1
 \<and> \<bar>doubleValue (roundRatio 49 100 0) - doubleValue (Finite 1 (- 2))\<bar>
     < \<bar>doubleValue (roundRatio 1 100 0) - doubleValue (Finite 1 (- 2))\<bar>"
proof -
  have a: "roundRatio 1 100 0 = Finite 5764607523034235 (- 59)"
    by (simp add: double_eval)
  have b: "roundRatio 49 100 0 = Finite 2206763817411543 (- 52)"
    by (simp add: double_eval)
  have c: "\<bar>doubleValue (Finite 2206763817411543 (- 52)) - doubleValue (Finite 1 (- 2))\<bar>
     < \<bar>doubleValue (Finite 5764607523034235 (- 59)) - doubleValue (Finite 1 (- 2))\<bar>"
    by (simp add: doubleValue_def power_int_minus)
  show ?thesis
    unfolding a b using c by (simp add: findClosestPowerIndex_def double_eval)
qed

section \<open>Properties of the capabilities parser\<close>


lemma parseUHFBandCapabilities_loop_appends:
  fixes st :: reader shows
  "\<exists>E H. \<forall>s. parseUHFBandCapabilities_loop data offset s
            = s\<lparr>powerTable := powerTable s @ E, hopTableIds := hopTableIds s @ H\<rparr>"
proof (induction data offset st rule: parseUHFBandCapabilities_loop.induct)
  case (1 data offset st)
  let ?len = "u16be data (offset + 2)"
  let ?ty = "u16be data offset AND 0x3FF"
  show ?case
  proof (cases "offset + 4 \<le> length data \<and> \<not> (?len = 0 \<or> ?len > length data - offset)")
    case False
    have "\<forall>s. parseUHFBandCapabilities_loop data offset s
            = s\<lparr>powerTable := powerTable s @ [], hopTableIds := hopTableIds s @ []\<rparr>"
      using False by (subst parseUHFBandCapabilities_loop.simps) (auto simp: Let_def)
    then show ?thesis by blast
  next
    case True
    obtain E H where r: "\<And>s. parseUHFBandCapabilities_loop data (offset + ?len) s
            = s\<lparr>powerTable := powerTable s @ E, hopTableIds := hopTableIds s @ H\<rparr>"
      using "1.IH"(1) [OF _ refl refl] "1.IH"(2) [OF _ refl refl] "1.IH"(3) [OF _ refl refl] True
      by (cases "?ty = 145"; cases "?ty = 147") auto
    let ?E = "(if ?ty = 145 \<and> ?len \<ge> 8
               then [\<lparr>index = u16be data (offset + 4),
                      powerDbm = roundRatio (i16be data (offset + 6)) 100 0\<rparr>] else []) @ E"
    let ?H = "(if ?ty \<noteq> 145 \<and> ?ty = 147 \<and> ?len \<ge> 6 \<and> u16be data (offset + 4) > 0
               then [u16be data (offset + 4)] else []) @ H"
    have "\<forall>s. parseUHFBandCapabilities_loop data offset s
            = s\<lparr>powerTable := powerTable s @ ?E, hopTableIds := hopTableIds s @ ?H\<rparr>"
      using True by (subst parseUHFBandCapabilities_loop.simps) (simp add: Let_def r [simplified])
    then show ?thesis by blast
  qed
qed

lemma parseUHFBandCapabilities_appends:
  "\<exists>E H. \<forall>s. parseUHFBandCapabilities data s
            = s\<lparr>powerTable := sortPowerTable (powerTable s @ E),
                 hopTableIds := hopTableIds s @ H\<rparr>"
proof -
  obtain E H where r: "\<And>s. parseUHFBandCapabilities_loop data 4 s
            = s\<lparr>powerTable := powerTable s @ E, hopTableIds := hopTableIds s @ H\<rparr>"
    using parseUHFBandCapabilities_loop_appends [of data 4] by blast
  have "\<forall>s. parseUHFBandCapabilities data s
            = s\<lparr>powerTable := sortPowerTable (powerTable s @ E),
                 hopTableIds := hopTableIds s @ H\<rparr>"
    by (simp add: parseUHFBandCapabilities_def r)
  then show ?thesis by blast
qed

lemma mset_insertEntry: "mset (insertEntry x ys) = add_mset x (mset ys)"
  by (induction ys) simp_all

lemma mset_sortPowerTable: "mset (sortPowerTable table) = mset table"
  by (induction table) (simp_all add: sortPowerTable_def mset_insertEntry)

text \<open>
  On finite doubles the comparator of the sort has the sign of the exact difference, so
  the sort is the stable sort by value; the entries that the parser adds are finite.
\<close>

lemma insertEntry_insort_key:
  assumes "finiteDouble (powerDbm x)" "\<forall>y \<in> set ys. finiteDouble (powerDbm y)"
  shows "insertEntry x ys = insort_key (\<lambda>entry. doubleValue (powerDbm entry)) x ys"
  using assms(2)
  by (induction ys) (simp_all add: comparePower_def numberSub_sign assms(1) not_less)

lemma sortPowerTable_sort_key:
  assumes "\<forall>x \<in> set table. finiteDouble (powerDbm x)"
  shows "sortPowerTable table = sort_key (\<lambda>entry. doubleValue (powerDbm entry)) table"
  using assms
proof (induction table)
  case Nil
  then show ?case by (simp add: sortPowerTable_def)
next
  case (Cons x xs)
  then have ih: "sortPowerTable xs = sort_key (\<lambda>entry. doubleValue (powerDbm entry)) xs"
    by simp
  have "\<forall>y \<in> set (sortPowerTable xs). finiteDouble (powerDbm y)"
    using Cons.prems unfolding ih by simp
  from insertEntry_insort_key [OF _ this, of x] Cons.prems
  have "insertEntry x (sortPowerTable xs)
      = insort_key (\<lambda>entry. doubleValue (powerDbm entry)) x (sortPowerTable xs)" by simp
  then show ?case unfolding ih by (simp add: sortPowerTable_def ih [unfolded sortPowerTable_def])
qed


lemma i16be_bound: "\<bar>i16be d off\<bar> < 2 ^ 1000"
proof -
  have "unat (d ! off) < 256" "unat (d ! (off + 1)) < 256"
    using unsigned_less [of "d ! off"] unsigned_less [of "d ! (off + 1)"] by simp_all
  then have "u16be d off < 65536" by (simp add: u16be_def)
  then have "\<bar>i16be d off\<bar> < 65536" by (simp add: i16be_def)
  also have "(65536::int) < 2 ^ 1000" by simp
  finally show ?thesis .
qed

lemma powerDbm_finiteDouble: "finiteDouble (roundRatio (i16be d off) 100 0)"
  by (rule roundRatio_small_finite [OF i16be_bound]) simp

lemma parseUHFBandCapabilities_loop_finiteTable:
  "finiteTable st \<Longrightarrow> finiteTable (parseUHFBandCapabilities_loop data offset st)"
proof (induction data offset st rule: parseUHFBandCapabilities_loop.induct)
  case (1 data offset st)
  let ?len = "u16be data (offset + 2)"
  let ?ty = "u16be data offset AND 0x3FF"
  show ?case
  proof (cases "offset + 4 \<le> length data \<and> \<not> (?len = 0 \<or> ?len > length data - offset)")
    case False
    then have "parseUHFBandCapabilities_loop data offset st = st"
      by (subst parseUHFBandCapabilities_loop.simps) (auto simp: Let_def)
    with "1.prems" show ?thesis by simp
  next
    case True
    let ?st1 = "st\<lparr>powerTable := powerTable st @
                     [\<lparr>index = u16be data (offset + 4),
                       powerDbm = roundRatio (i16be data (offset + 6)) 100 0\<rparr>]\<rparr>"
    let ?st2 = "st\<lparr>hopTableIds := hopTableIds st @ [u16be data (offset + 4)]\<rparr>"
    have f1: "finiteTable ?st1"
      using "1.prems" by (simp add: finiteTable_def powerDbm_finiteDouble)
    have f2: "finiteTable ?st2" using "1.prems" by (simp add: finiteTable_def)
    show ?thesis
      using "1.IH"(1) [OF _ refl refl] "1.IH"(2) [OF _ refl refl] "1.IH"(3) [OF _ refl refl]
        True f1 f2 "1.prems"
      by (subst parseUHFBandCapabilities_loop.simps) (simp add: Let_def)
  qed
qed

lemma parseUHFBandCapabilities_sorted:
  assumes "finiteTable st"
  shows "powerTable (parseUHFBandCapabilities data st)
           = sort_key (\<lambda>entry. doubleValue (powerDbm entry))
               (powerTable (parseUHFBandCapabilities_loop data 4 st))"
    and "finiteTable (parseUHFBandCapabilities data st)"
proof -
  have f: "finiteTable (parseUHFBandCapabilities_loop data 4 st)"
    by (rule parseUHFBandCapabilities_loop_finiteTable [OF assms])
  then show "powerTable (parseUHFBandCapabilities data st)
           = sort_key (\<lambda>entry. doubleValue (powerDbm entry))
               (powerTable (parseUHFBandCapabilities_loop data 4 st))"
    by (simp add: parseUHFBandCapabilities_def Let_def sortPowerTable_sort_key finiteTable_def)
  with f show "finiteTable (parseUHFBandCapabilities data st)"
    by (simp add: finiteTable_def)
qed


lemma addsTables_refl: "addsTables s s [] []"
  by (simp add: addsTables_def)

lemma addsTables_trans:
  "addsTables s s1 E1 H1 \<Longrightarrow> addsTables s1 s2 E2 H2 \<Longrightarrow> addsTables s s2 (E1 @ E2) (H1 @ H2)"
  unfolding addsTables_def
  by (cases s, cases s1, cases s2) auto

lemma parseUHFBandCapabilities_adds:
  "\<exists>E H. \<forall>s. addsTables s (parseUHFBandCapabilities data s) E H"
proof -
  obtain E H where r: "\<And>s. parseUHFBandCapabilities data s
            = s\<lparr>powerTable := sortPowerTable (powerTable s @ E),
                 hopTableIds := hopTableIds s @ H\<rparr>"
    using parseUHFBandCapabilities_appends [of data] by blast
  have "\<forall>s. addsTables s (parseUHFBandCapabilities data s) E H"
    by (simp add: addsTables_def r mset_sortPowerTable)
  then show ?thesis by blast
qed


lemma parseRegulatoryCapabilities_loop_adds:
  fixes st :: reader shows
  "\<exists>E H. \<forall>s. addsTables s (parseRegulatoryCapabilities_loop data offset s) E H"
proof (induction data offset st rule: parseRegulatoryCapabilities_loop.induct)
  case (1 data offset st)
  let ?len = "u16be data (offset + 2)"
  let ?ty = "u16be data offset AND 0x3FF"
  show ?case
  proof (cases "offset + 4 \<le> length data \<and> \<not> (?len = 0 \<or> ?len > length data - offset)")
    case False
    have "\<forall>s. parseRegulatoryCapabilities_loop data offset s = s"
      using False by (subst parseRegulatoryCapabilities_loop.simps) (auto simp: Let_def)
    then have "\<forall>s. addsTables s (parseRegulatoryCapabilities_loop data offset s) [] []"
      by (simp add: addsTables_refl)
    then show ?thesis by blast
  next
    case True
    obtain E H where r: "\<And>s. addsTables s (parseRegulatoryCapabilities_loop data (offset + ?len) s) E H"
      using "1.IH"(1) [OF _ refl refl] "1.IH"(2) [OF _ refl refl] True
      by (cases "?ty = 144") auto
    show ?thesis
    proof (cases "?ty = 144")
      case False
      have "\<forall>s. parseRegulatoryCapabilities_loop data offset s
                = parseRegulatoryCapabilities_loop data (offset + ?len) s"
        using True False by (subst parseRegulatoryCapabilities_loop.simps) (simp add: Let_def)
      with r show ?thesis by metis
    next
      case ty: True
      obtain E1 H1 where u:
        "\<And>s. addsTables s (parseUHFBandCapabilities (slice data offset (offset + ?len)) s) E1 H1"
        using parseUHFBandCapabilities_adds by blast
      have "\<forall>s. parseRegulatoryCapabilities_loop data offset s
                = parseRegulatoryCapabilities_loop data (offset + ?len)
                    (parseUHFBandCapabilities (slice data offset (offset + ?len)) s)"
        using True ty by (subst parseRegulatoryCapabilities_loop.simps) (simp add: Let_def)
      then have "\<forall>s. addsTables s (parseRegulatoryCapabilities_loop data offset s) (E1 @ E) (H1 @ H)"
        using addsTables_trans [OF u r] by simp
      then show ?thesis by blast
    qed
  qed
qed

lemma parseRegulatoryCapabilities_adds:
  "\<exists>E H. \<forall>s. addsTables s (parseRegulatoryCapabilities data s) E H"
proof (cases "4 + 4 > length data")
  case True
  then have "\<forall>s. addsTables s (parseRegulatoryCapabilities data s) [] []"
    by (simp add: parseRegulatoryCapabilities_def addsTables_refl)
  then show ?thesis by blast
next
  case False
  then show ?thesis
    using parseRegulatoryCapabilities_loop_adds [of data 8]
    by (simp add: parseRegulatoryCapabilities_def)
qed

lemma parseCapabilities_loop_adds:
  fixes st :: reader shows
  "\<exists>E H. \<forall>s. addsTables s (parseCapabilities_loop data offset s) E H"
proof (induction data offset st rule: parseCapabilities_loop.induct)
  case (1 data offset st)
  let ?len = "u16be data (offset + 2)"
  let ?ty = "u16be data offset AND 0x3FF"
  show ?case
  proof (cases "offset + 4 \<le> length data \<and> \<not> (?len = 0 \<or> ?len > length data - offset)")
    case False
    have "\<forall>s. parseCapabilities_loop data offset s = s"
      using False by (subst parseCapabilities_loop.simps) (auto simp: Let_def)
    then have "\<forall>s. addsTables s (parseCapabilities_loop data offset s) [] []"
      by (simp add: addsTables_refl)
    then show ?thesis by blast
  next
    case True
    obtain E H where r: "\<And>s. addsTables s (parseCapabilities_loop data (offset + ?len) s) E H"
      using "1.IH"(1) [OF _ refl refl] "1.IH"(2) [OF _ refl refl] True
      by (cases "?ty = 143") auto
    show ?thesis
    proof (cases "?ty = 143")
      case False
      have "\<forall>s. parseCapabilities_loop data offset s
                = parseCapabilities_loop data (offset + ?len) s"
        using True False by (subst parseCapabilities_loop.simps) (simp add: Let_def)
      with r show ?thesis by metis
    next
      case ty: True
      obtain E1 H1 where u:
        "\<And>s. addsTables s (parseRegulatoryCapabilities (slice data offset (offset + ?len)) s) E1 H1"
        using parseRegulatoryCapabilities_adds by blast
      have "\<forall>s. parseCapabilities_loop data offset s
                = parseCapabilities_loop data (offset + ?len)
                    (parseRegulatoryCapabilities (slice data offset (offset + ?len)) s)"
        using True ty by (subst parseCapabilities_loop.simps) (simp add: Let_def)
      then have "\<forall>s. addsTables s (parseCapabilities_loop data offset s) (E1 @ E) (H1 @ H)"
        using addsTables_trans [OF u r] by simp
      then show ?thesis by blast
    qed
  qed
qed

lemma selectHop_append: "selectHop (hs @ H) = selectHop ((hs @ H) @ H)"
  by (cases hs; cases H) (auto simp: selectHop_def)

lemma addsTables_hops: "addsTables s s' E H \<Longrightarrow> hopTableIds s' = hopTableIds s @ H"
  unfolding addsTables_def by (cases s, cases s') auto

lemma addsTables_mset:
  "addsTables s s' E H \<Longrightarrow> mset (powerTable s') = mset (powerTable s) + mset E"
  unfolding addsTables_def by simp

lemma parseCapabilities_from_adds:
  "\<exists>E H. \<forall>s. mset (powerTable (parseCapabilities_from data offset s)) = mset (powerTable s) + mset E
            \<and> hopTableIds (parseCapabilities_from data offset s) = hopTableIds s @ H
            \<and> hopTableId (parseCapabilities_from data offset s) = selectHop (hopTableIds s @ H)"
proof -
  obtain E H where r: "\<And>s. addsTables s (parseCapabilities_loop data offset s) E H"
    using parseCapabilities_loop_adds [of data offset] by blast
  have "\<forall>s. mset (powerTable (parseCapabilities_from data offset s)) = mset (powerTable s) + mset E
            \<and> hopTableIds (parseCapabilities_from data offset s) = hopTableIds s @ H
            \<and> hopTableId (parseCapabilities_from data offset s) = selectHop (hopTableIds s @ H)"
    using addsTables_hops [OF r] addsTables_mset [OF r]
    by (simp add: parseCapabilities_from_def selectHop_def Let_def)
  then show ?thesis by blast
qed

lemma parseCapabilities_cases:
  "parseCapabilities st data = Inr (True, st1) \<Longrightarrow>
     \<exists>offset. st1 = parseCapabilities_from data offset st
            \<and> (\<forall>s. parseCapabilities s data = Inr (True, parseCapabilities_from data offset s))"
  by (auto simp: parseCapabilities_def Let_def bindE_def readUInt16BE_def split: if_splits)


lemmas capabilities_eval =
  parseCapabilities_def parseCapabilities_from_def parseCapabilities_loop.simps
  parseRegulatoryCapabilities_def parseRegulatoryCapabilities_loop.simps
  parseUHFBandCapabilities_def parseUHFBandCapabilities_loop.simps
  sortPowerTable_def comparePower_def double_eval
  u16be_def i16be_def slice_def bindE_def readUInt16BE_def

lemma connectedReader_reached:
  "bindE (onConnect (connect (newReader CONFIG))) onCapabilitiesTimer = Inr connectedReader"
  by (simp add: onConnect_def connect_def newReader_def onCapabilitiesTimer_def
      sendGetReaderCapabilities_def sendMessage_def sendMessage_frame_def CONFIG_def
      connectedReader_def bindE_def writeUInt8_def writeUInt32BE_def Let_def)

lemma parse_capabilitiesResponse:
  "parseCapabilities connectedReader capabilitiesResponse =
     Inr (True, connectedReader\<lparr>powerTable := [\<lparr>index = 1, powerDbm = Finite 5 1\<rparr>,
                                                  \<lparr>index = 200, powerDbm = Finite 15 1\<rparr>],
                                  hopTableIds := [1], hopTableId := 1\<rparr>)"
  by (simp add: capabilities_eval capabilitiesResponse_def connectedReader_def)

text \<open>
  Claim C8, as the code has it. The parser never empties the tables (the reconnect timer
  does): a second parse of the same message on the state left by the first succeeds again
  and adds the entries \<open>E\<close> and the hop-table IDs \<open>H\<close> of the message once more. The
  two tables then hold the same values as after the first parse, each contributed entry
  once more often, and the selected hop-table ID is the same.
\<close>

theorem parseCapabilities_second_parse:
  assumes "parseCapabilities st data = Inr (True, st1)"
  shows "\<exists>st2 E H. parseCapabilities st1 data = Inr (True, st2)
        \<and> mset (powerTable st1) = mset (powerTable st) + mset E
        \<and> mset (powerTable st2) = mset (powerTable st1) + mset E
        \<and> hopTableIds st1 = hopTableIds st @ H
        \<and> hopTableIds st2 = hopTableIds st1 @ H
        \<and> hopTableId st2 = hopTableId st1
        \<and> set (powerTable st2) = set (powerTable st1)
        \<and> set (hopTableIds st2) = set (hopTableIds st1)"
proof -
  obtain offset where o1: "st1 = parseCapabilities_from data offset st"
    and o2: "\<And>s. parseCapabilities s data = Inr (True, parseCapabilities_from data offset s)"
    using parseCapabilities_cases [OF assms] by blast
  obtain E H where r:
    "\<And>s. mset (powerTable (parseCapabilities_from data offset s)) = mset (powerTable s) + mset E"
    "\<And>s. hopTableIds (parseCapabilities_from data offset s) = hopTableIds s @ H"
    "\<And>s. hopTableId (parseCapabilities_from data offset s) = selectHop (hopTableIds s @ H)"
    using parseCapabilities_from_adds [of data offset] by blast
  let ?st2 = "parseCapabilities_from data offset st1"
  have m1: "mset (powerTable st1) = mset (powerTable st) + mset E" by (simp add: o1 r)
  have m2: "mset (powerTable ?st2) = mset (powerTable st1) + mset E" by (simp add: r)
  have h1: "hopTableIds st1 = hopTableIds st @ H" by (simp add: o1 r)
  have h2: "hopTableIds ?st2 = hopTableIds st1 @ H" by (simp add: r)
  have i1: "hopTableId st1 = selectHop (hopTableIds st @ H)" by (simp add: o1 r)
  have i2: "hopTableId ?st2 = selectHop ((hopTableIds st @ H) @ H)" by (simp add: r(3) h1)
  have i: "hopTableId ?st2 = hopTableId st1"
    using i1 i2 selectHop_append [of "hopTableIds st" H] by simp
  have "set_mset (mset (powerTable ?st2)) = set_mset (mset (powerTable st1))"
    unfolding m2 unfolding m1 by auto
  then have s1: "set (powerTable ?st2) = set (powerTable st1)" by simp
  have s2: "set (hopTableIds ?st2) = set (hopTableIds st1)" unfolding h2 unfolding h1 by auto
  from o2 [of st1] m1 m2 h1 h2 i s1 s2 show ?thesis by blast
qed


theorem parseCapabilities_second_parse_witness:
  "parseCapabilities connectedReader capabilitiesResponse =
     Inr (True, connectedReader\<lparr>powerTable := [\<lparr>index = 1, powerDbm = Finite 5 1\<rparr>,
                                                  \<lparr>index = 200, powerDbm = Finite 15 1\<rparr>],
                                  hopTableIds := [1], hopTableId := 1\<rparr>)
 \<and> (\<exists>st2. parseCapabilities
             (connectedReader\<lparr>powerTable := [\<lparr>index = 1, powerDbm = Finite 5 1\<rparr>,
                                                \<lparr>index = 200, powerDbm = Finite 15 1\<rparr>],
                                hopTableIds := [1], hopTableId := 1\<rparr>)
             capabilitiesResponse = Inr (True, st2)
          \<and> hopTableId st2 = 1
          \<and> set (powerTable st2) = {\<lparr>index = 1, powerDbm = Finite 5 1\<rparr>, \<lparr>index = 200, powerDbm = Finite 15 1\<rparr>}
          \<and> set (hopTableIds st2) = {1})"
  using parseCapabilities_second_parse [OF parse_capabilitiesResponse]
        parse_capabilitiesResponse
  by auto

text \<open>
  The claim as written wants the tables of the second parse identical to those of the
  first. On the response above the second parse leaves every power entry and the hop-table
  ID twice.
\<close>

theorem parseCapabilities_twice_counterexample:
  "parseCapabilities connectedReader capabilitiesResponse =
     Inr (True, connectedReader\<lparr>powerTable := [\<lparr>index = 1, powerDbm = Finite 5 1\<rparr>,
                                                  \<lparr>index = 200, powerDbm = Finite 15 1\<rparr>],
                                  hopTableIds := [1], hopTableId := 1\<rparr>)
 \<and> parseCapabilities
       (connectedReader\<lparr>powerTable := [\<lparr>index = 1, powerDbm = Finite 5 1\<rparr>,
                                          \<lparr>index = 200, powerDbm = Finite 15 1\<rparr>],
                          hopTableIds := [1], hopTableId := 1\<rparr>)
       capabilitiesResponse =
     Inr (True, connectedReader\<lparr>powerTable := [\<lparr>index = 1, powerDbm = Finite 5 1\<rparr>,
                                                  \<lparr>index = 1, powerDbm = Finite 5 1\<rparr>,
                                                  \<lparr>index = 200, powerDbm = Finite 15 1\<rparr>,
                                                  \<lparr>index = 200, powerDbm = Finite 15 1\<rparr>],
                                  hopTableIds := [1, 1], hopTableId := 1\<rparr>)
 \<and> [\<lparr>index = 1, powerDbm = Finite 5 1\<rparr>, \<lparr>index = 1, powerDbm = Finite 5 1\<rparr>,
     \<lparr>index = 200, powerDbm = Finite 15 1\<rparr>, \<lparr>index = 200, powerDbm = Finite 15 1\<rparr>]
     \<noteq> [\<lparr>index = 1, powerDbm = Finite 5 1\<rparr>, \<lparr>index = 200, powerDbm = Finite 15 1\<rparr>]
 \<and> [1, 1] \<noteq> [1::nat]"
  by (simp add: capabilities_eval capabilitiesResponse_def connectedReader_def)

section \<open>Properties of the frame codec\<close>

lemma nat_and_3: "(x::nat) AND 3 = x mod 4"
proof -
  have "(3::nat) = mask 2" by (simp add: mask_eq_exp_minus_1)
  then have "x AND 3 = take_bit 2 x" by (simp add: take_bit_eq_mask)
  then show ?thesis by (simp add: take_bit_eq_mod)
qed

lemma nat_and_255: "(x::nat) AND 255 = x mod 256"
proof -
  have "(255::nat) = mask 8" by (simp add: mask_eq_exp_minus_1)
  then have "x AND 255 = take_bit 8 x" by (simp add: take_bit_eq_mask)
  then show ?thesis by (simp add: take_bit_eq_mod)
qed

lemma nat_or_4: "x < 4 \<Longrightarrow> (4::nat) OR x = 4 + x"
proof -
  assume "x < 4"
  then have "x = 0 \<or> x = 1 \<or> x = 2 \<or> x = 3" by arith
  then show ?thesis by auto
qed

lemma nat_push_or: "y < 256 \<Longrightarrow> push_bit 8 (x::nat) OR y = 256 * x + y"
proof -
  assume "y < 256"
  then have y: "take_bit 8 y = y" by (simp add: take_bit_nat_eq_self)
  have "push_bit 8 x AND take_bit 8 y = 0"
    by (rule bit_eqI) (auto simp: bit_simps)
  then have "push_bit 8 x + take_bit 8 y = push_bit 8 x OR take_bit 8 y"
    by (rule disjunctive_add_eq_or)
  then show ?thesis by (simp add: y push_bit_eq_mult)
qed

lemma unat_of_nat_byte: "n < 256 \<Longrightarrow> unat (of_nat n :: byte) = n"
  by (simp add: unat_of_nat take_bit_nat_eq_self)

lemma msgTypeOf_header:
  assumes "type \<le> 1023"
  shows "msgTypeOf (of_nat (4 OR (drop_bit 8 type AND 3)) # of_nat (type AND 255) # rest) = type"
proof -
  let ?x = "drop_bit 8 type AND 3"
  have x: "?x = type div 256" using assms by (simp add: nat_and_3 drop_bit_eq_div)
  have x4: "?x < 4" using assms unfolding x by simp
  have "4 OR ?x < 256" using x4 nat_or_4 [of ?x] by simp
  then have "unat (of_nat (4 OR ?x) :: byte) = 4 OR ?x" by (rule unat_of_nat_byte)
  then have b0: "unat (of_nat (4 OR ?x) :: byte) = 4 + ?x"
    using x4 nat_or_4 [of ?x] by simp
  have "type AND 255 < 256" by (simp add: nat_and_255)
  then have "unat (of_nat (type AND 255) :: byte) = type AND 255" by (rule unat_of_nat_byte)
  then have b1: "unat (of_nat (type AND 255) :: byte) = type mod 256"
    by (simp add: nat_and_255)
  have "(4 + ?x) AND 3 = ?x"
  proof -
    from x4 have "?x = 0 \<or> ?x = 1 \<or> ?x = 2 \<or> ?x = 3" by arith
    then show ?thesis by (elim disjE) simp_all
  qed
  then show ?thesis
    unfolding msgTypeOf_def byteAt_def
    using b0 b1 by (simp add: nat_push_or x)
qed

lemma split_u32:
  "(v div 16777216 * 256 + v div 65536 mod 256) * 65536
     + (v div 256 mod 256 * 256 + v mod 256) = (v::nat)"
proof -
  have a: "v div 16777216 = v div 65536 div 256"
    using div_mult2_eq [of v 65536 256] by simp
  have hi: "v div 16777216 * 256 + v div 65536 mod 256 = v div 65536"
    unfolding a by (rule div_mult_mod_eq)
  have lo: "v div 256 mod 256 * 256 + v mod 256 = v mod 65536"
    using mod_mult2_eq [of v 256 256] by simp
  show ?thesis unfolding hi lo by (rule div_mult_mod_eq)
qed

lemma div_2_24_less: "v < 4294967296 \<Longrightarrow> v div 16777216 < (256::nat)"
  using less_mult_imp_div_less [of v 256 16777216] by simp


lemma u32be_written:
  assumes "v < 4294967296"
  shows "u32be (a # b # [of_nat (v div 16777216), of_nat (v div 65536 mod 256),
                         of_nat (v div 256 mod 256), of_nat (v mod 256)] @ rest) 2 = v"
proof -
  have 1: "unat (of_nat (v div 16777216) :: byte) = v div 16777216"
    using div_2_24_less [OF assms] by (rule unat_of_nat_byte)
  have 2: "unat (of_nat (v div 65536 mod 256) :: byte) = v div 65536 mod 256"
    by (rule unat_of_nat_byte) simp
  have 3: "unat (of_nat (v div 256 mod 256) :: byte) = v div 256 mod 256"
    by (rule unat_of_nat_byte) simp
  have 4: "unat (of_nat (v mod 256) :: byte) = v mod 256"
    by (rule unat_of_nat_byte) simp
  have "u32be (a # b # [of_nat (v div 16777216), of_nat (v div 65536 mod 256),
                         of_nat (v div 256 mod 256), of_nat (v mod 256)] @ rest) 2
        = (v div 16777216 * 256 + v div 65536 mod 256) * 65536
          + (v div 256 mod 256 * 256 + v mod 256)"
    unfolding u32be_def u16be_def
    by (simp only: 1 2 3 4 nth_Cons_Suc nth_Cons_0 numeral_2_eq_2 numeral_3_eq_3
          add_Suc add_Suc_right add_0 add_0_right One_nat_def append_Cons)
  then show ?thesis by (simp only: split_u32)
qed

lemma handleData_loop_nextFrame:
  "handleData_loop (Suc fuel) st =
     (case nextFrame (buffer st) of
        None \<Rightarrow> Some (Inr st)
      | Some (message, rest) \<Rightarrow>
          (case processMessage (st\<lparr>buffer := rest\<rparr>) message of
             Inl e \<Rightarrow> Some (Inl e)
           | Inr st2 \<Rightarrow> handleData_loop fuel st2))"
  by (simp add: nextFrame_def Let_def)


lemma writeUInt32BE_ok:
  "v < 4294967296 \<Longrightarrow>
   writeUInt32BE v = Inr [of_nat (v div 16777216), of_nat (v div 65536 mod 256),
                          of_nat (v div 256 mod 256), of_nat (v mod 256)]"
  unfolding writeUInt32BE_def by (simp only: if_True)

lemma writeUInt8_ok: "v < 256 \<Longrightarrow> writeUInt8 v = Inr [of_nat v]"
  unfolding writeUInt8_def by (simp only: if_True)

lemma bindE_Inr: "bindE (Inr v) f = f v"
  by (simp add: bindE_def)

lemma readUInt16BE_in_range: "off + 2 \<le> length d \<Longrightarrow> readUInt16BE d off = Inr (u16be d off)"
  by (simp add: readUInt16BE_def)

lemma sendMessage_frame_decodes:
  assumes "type \<le> 1023" and "length p < 2 ^ 32 - 10" and "mid < 2 ^ 32"
  shows "\<exists>frame. sendMessage_frame type mid p = Inr frame
         \<and> frame ! 0 = of_nat (0x04 OR (drop_bit 8 type AND 0x03))
         \<and> nextFrame frame = Some (frame, [])
         \<and> msgTypeOf frame = type
         \<and> slice frame 10 (length frame) = p
         \<and> minimal_sendMessage_frame type mid p = Inr frame
         \<and> (\<forall>st fuel. handleData_loop (Suc fuel) (st\<lparr>buffer := frame\<rparr>) =
                (case processMessage (st\<lparr>buffer := []\<rparr>) frame of
                   Inl e \<Rightarrow> Some (Inl e)
                 | Inr st2 \<Rightarrow> handleData_loop fuel st2))"
proof -
  define x where "x = drop_bit 8 type AND 3"
  define n where "n = 10 + length p"
  define hdr :: bytes where "hdr = [of_nat (4 OR x), of_nat (type AND 255)]
       @ [of_nat (n div 16777216), of_nat (n div 65536 mod 256),
               of_nat (n div 256 mod 256), of_nat (n mod 256)]
       @ [of_nat (mid div 16777216), of_nat (mid div 65536 mod 256),
               of_nat (mid div 256 mod 256), of_nat (mid mod 256)]"
  define frame where "frame = hdr @ p"
  have x4: "x < 4" by (simp add: x_def nat_and_3)
  have b0: "4 OR x < 256" using x4 nat_or_4 [of x] by simp
  have b1: "type AND 255 < 256" by (simp add: nat_and_255)
  have n: "n < 4294967296" using assms(2) by (simp add: n_def)
  have m: "mid < 4294967296" using assms(3) by simp
  have enc: "sendMessage_frame type mid p = Inr frame"
    unfolding sendMessage_frame_def Let_def x_def [symmetric] n_def [symmetric]
    by (simp only: writeUInt8_ok [OF b0] writeUInt8_ok [OF b1] writeUInt32BE_ok [OF n]
          writeUInt32BE_ok [OF m] bindE_Inr frame_def hdr_def append_Cons append_Nil)
  have p4: "push_bit 2 (1::nat) = 4" by simp
  have enc': "minimal_sendMessage_frame type mid p = Inr frame"
    unfolding minimal_sendMessage_frame_def p4 x_def [symmetric] n_def [symmetric]
    by (simp only: writeUInt8_ok [OF b0] writeUInt8_ok [OF b1] writeUInt32BE_ok [OF n]
          writeUInt32BE_ok [OF m] bindE_Inr frame_def hdr_def append_Cons append_Nil)
  have lenh: "length hdr = 10" by (simp add: hdr_def)
  have lenf: "length frame = n" by (simp add: frame_def lenh n_def)
  have len: "u32be frame 2 = n"
    unfolding frame_def hdr_def
    using u32be_written [OF n, of "of_nat (4 OR x)" "of_nat (type AND 255)"]
    by (simp only: append_Cons append_Nil append_assoc)
  have nf: "nextFrame frame = Some (frame, [])"
    unfolding nextFrame_def Let_def len slice_def lenf
    by (simp add: lenf n_def)
  have ty: "msgTypeOf frame = type"
    using msgTypeOf_header [OF assms(1)] unfolding frame_def hdr_def x_def
    by (simp only: append_Cons append_Nil)
  have pl: "slice frame 10 (length frame) = p"
    by (simp add: slice_def frame_def lenh)
  have f0: "frame ! 0 = of_nat (0x04 OR (drop_bit 8 type AND 0x03))"
    by (simp add: frame_def hdr_def x_def)
  have hd: "\<forall>st fuel. handleData_loop (Suc fuel) (st\<lparr>buffer := frame\<rparr>) =
                (case processMessage (st\<lparr>buffer := []\<rparr>) frame of
                   Inl e \<Rightarrow> Some (Inl e)
                 | Inr st2 \<Rightarrow> handleData_loop fuel st2)"
    by (simp only: handleData_loop_nextFrame) (simp add: nf)
  from enc enc' nf ty pl f0 hd show ?thesis by blast
qed


lemma minimal_sendMessage_frame_same:
  "minimal_sendMessage_frame type mid p = sendMessage_frame type mid p"
proof -
  have "push_bit 2 (1::nat) = 4" by simp
  then show ?thesis
    by (simp only: minimal_sendMessage_frame_def sendMessage_frame_def Let_def)
qed

text \<open>
  Claim C7. For a type of at most 1023, a payload shorter than \<open>2^32 - 10\<close> bytes and a
  message identifier that fits 32 bits (the counter starts at 1 and \<open>writeUInt32BE\<close> throws
  beyond), \<open>sendMessage\<close> emits a frame whose byte 0 is \<open>0x04 | ((type >> 8) & 0x03)\<close>; the
  receive loop cuts exactly this frame off a buffer that holds it and hands it to
  \<open>processMessage\<close>, which reads the type back; the bytes from offset 10 are the payload;
  and the header encoding of the stripped-down script gives the same frame, as it does for
  every type, identifier and payload.
\<close>

theorem frame_round_trip:
  "(type \<le> 1023 \<and> length p < 2 ^ 32 - 10 \<and> mid < 2 ^ 32 \<longrightarrow>
      (\<exists>frame. sendMessage_frame type mid p = Inr frame
         \<and> frame ! 0 = of_nat (0x04 OR (drop_bit 8 type AND 0x03))
         \<and> nextFrame frame = Some (frame, [])
         \<and> msgTypeOf frame = type
         \<and> slice frame 10 (length frame) = p
         \<and> minimal_sendMessage_frame type mid p = Inr frame
         \<and> (\<forall>st fuel. handleData_loop (Suc fuel) (st\<lparr>buffer := frame\<rparr>) =
                (case processMessage (st\<lparr>buffer := []\<rparr>) frame of
                   Inl e \<Rightarrow> Some (Inl e)
                 | Inr st2 \<Rightarrow> handleData_loop fuel st2))))
 \<and> (\<forall>t m q. minimal_sendMessage_frame t m q = sendMessage_frame t m q)"
proof (intro conjI impI allI)
  assume "type \<le> 1023 \<and> length p < 2 ^ 32 - 10 \<and> mid < 2 ^ 32"
  then show "\<exists>frame. sendMessage_frame type mid p = Inr frame
         \<and> frame ! 0 = of_nat (0x04 OR (drop_bit 8 type AND 0x03))
         \<and> nextFrame frame = Some (frame, [])
         \<and> msgTypeOf frame = type
         \<and> slice frame 10 (length frame) = p
         \<and> minimal_sendMessage_frame type mid p = Inr frame
         \<and> (\<forall>st fuel. handleData_loop (Suc fuel) (st\<lparr>buffer := frame\<rparr>) =
                (case processMessage (st\<lparr>buffer := []\<rparr>) frame of
                   Inl e \<Rightarrow> Some (Inl e)
                 | Inr st2 \<Rightarrow> handleData_loop fuel st2))"
    by (intro sendMessage_frame_decodes) simp_all
next
  fix t m q
  show "minimal_sendMessage_frame t m q = sendMessage_frame t m q"
    by (rule minimal_sendMessage_frame_same)
qed

theorem frame_round_trip_witness:
  "(777::nat) \<le> 1023 \<and> length [0x01, 0x02, 0x03 :: byte] < 2 ^ 32 - 10 \<and> (4::nat) < 2 ^ 32
 \<and> sendMessage_frame 777 4 [0x01, 0x02, 0x03] =
       Inr [0x07, 0x09, 0x00, 0x00, 0x00, 0x0D, 0x00, 0x00, 0x00, 0x04, 0x01, 0x02, 0x03]
 \<and> nextFrame [0x07, 0x09, 0x00, 0x00, 0x00, 0x0D, 0x00, 0x00, 0x00, 0x04, 0x01, 0x02, 0x03] =
       Some ([0x07, 0x09, 0x00, 0x00, 0x00, 0x0D, 0x00, 0x00, 0x00, 0x04, 0x01, 0x02, 0x03], [])
 \<and> msgTypeOf [0x07, 0x09, 0x00, 0x00, 0x00, 0x0D, 0x00, 0x00, 0x00, 0x04, 0x01, 0x02, 0x03] = 777
 \<and> minimal_sendMessage_frame 777 4 [0x01, 0x02, 0x03] =
       Inr [0x07, 0x09, 0x00, 0x00, 0x00, 0x0D, 0x00, 0x00, 0x00, 0x04, 0x01, 0x02, 0x03]"
proof -
  have h: "(777::nat) \<le> 1023" "length [0x01, 0x02, 0x03 :: byte] < 2 ^ 32 - 10" "(4::nat) < 2 ^ 32"
    by simp_all
  have e: "sendMessage_frame 777 4 [0x01, 0x02, 0x03] =
       Inr [0x07, 0x09, 0x00, 0x00, 0x00, 0x0D, 0x00, 0x00, 0x00, 0x04, 0x01, 0x02, 0x03]"
    by (simp add: sendMessage_frame_def writeUInt8_def writeUInt32BE_def bindE_def)
  from frame_round_trip [of 777 "[0x01, 0x02, 0x03]" 4] h
  obtain frame where f: "sendMessage_frame 777 4 [0x01, 0x02, 0x03] = Inr frame"
    "nextFrame frame = Some (frame, [])" "msgTypeOf frame = 777"
    "minimal_sendMessage_frame 777 4 [0x01, 0x02, 0x03] = Inr frame"
    by blast
  from f(1) e have "frame = [0x07, 0x09, 0x00, 0x00, 0x00, 0x0D, 0x00, 0x00, 0x00, 0x04,
                            0x01, 0x02, 0x03]"
    by simp
  with f e h show ?thesis by simp
qed

section \<open>Properties of the response check\<close>

lemma checkResponse_loop_result:
  "checkResponse_loop data offset success = Inr b \<Longrightarrow>
     b = (success \<and> (\<forall>off \<in> set (paramOffsets data offset).
                        paramTypeAt data off = 287 \<longrightarrow> u16be data (off + 4) = 0))"
proof (induction data offset success arbitrary: b rule: checkResponse_loop.induct)
  case (1 data offset success)
  let ?len = "u16be data (offset + 2)"
  let ?ty = "u16be data offset AND 0x3FF"
  show ?case
  proof (cases "offset + 4 \<le> length data \<and> \<not> (?len = 0 \<or> ?len > length data - offset)")
    case False
    then have "paramOffsets data offset = []"
      by (subst paramOffsets.simps) (auto simp: Let_def)
    moreover have "checkResponse_loop data offset success = Inr success"
      using False by (subst checkResponse_loop.simps) (auto simp: Let_def)
    ultimately show ?thesis using "1.prems" by simp
  next
    case True
    then have po: "paramOffsets data offset = offset # paramOffsets data (offset + ?len)"
      by (subst paramOffsets.simps) (auto simp: Let_def)
    show ?thesis
    proof (cases "?ty = 287")
      case False
      then have "checkResponse_loop data offset success
                 = checkResponse_loop data (offset + ?len) success"
        using True by (subst checkResponse_loop.simps) (simp add: Let_def)
      with "1.prems" have "checkResponse_loop data (offset + ?len) success = Inr b" by simp
      from "1.IH"(3) [OF _ refl refl _ False this] True False po
      show ?thesis by (simp add: paramTypeAt_def)
    next
      case ty: True
      show ?thesis
      proof (cases "readUInt16BE data (offset + 4)")
        case (Inl e)
        with True ty "1.prems" show ?thesis
          by (subst (asm) checkResponse_loop.simps) (simp add: Let_def bindE_def)
      next
        case (Inr code)
        then have code: "code = u16be data (offset + 4)"
          by (simp add: readUInt16BE_def split: if_splits)
        show ?thesis
        proof (cases "code = 0")
          case z: True
          then have "checkResponse_loop data offset success
                 = checkResponse_loop data (offset + ?len) success"
            using True ty Inr by (subst checkResponse_loop.simps) (simp add: Let_def bindE_def)
          with "1.prems" have "checkResponse_loop data (offset + ?len) success = Inr b" by simp
          from "1.IH"(2) [OF _ refl refl _ ty Inr _ this] True z code po ty
          show ?thesis by (simp add: paramTypeAt_def)
        next
          case nz: False
          let ?nested = "(if ?len > 6
                         then bindE (readUInt16BE data (offset + 6)) (\<lambda>descLen.
                                checkResponse_nested data offset ?len (offset + 8 + descLen))
                         else Inr ())"
          have eq: "checkResponse_loop data offset success
                 = bindE ?nested (\<lambda>_. checkResponse_loop data (offset + ?len) False)"
            using True ty Inr nz by (subst checkResponse_loop.simps) (simp add: Let_def bindE_def)
          show ?thesis
          proof (cases ?nested)
            case (Inl e)
            with eq "1.prems" show ?thesis by (simp add: bindE_def)
          next
            case n: (Inr u)
            with eq "1.prems" have r: "checkResponse_loop data (offset + ?len) False = Inr b"
              by (simp add: bindE_def)
            from "1.IH"(1) [OF _ refl refl _ ty Inr nz n r] True
            have "b = False" by simp
            with nz code po ty show ?thesis by (simp add: paramTypeAt_def)
          qed
        qed
      qed
    qed
  qed
qed


lemma checkResponse_loop_zero:
  "(\<forall>off \<in> set (paramOffsets data offset).
       paramTypeAt data off = 287 \<longrightarrow> off + 6 \<le> length data \<and> u16be data (off + 4) = 0)
   \<Longrightarrow> checkResponse_loop data offset success = Inr success"
proof (induction data offset success rule: checkResponse_loop.induct)
  case (1 data offset success)
  let ?len = "u16be data (offset + 2)"
  let ?ty = "u16be data offset AND 0x3FF"
  show ?case
  proof (cases "offset + 4 \<le> length data \<and> \<not> (?len = 0 \<or> ?len > length data - offset)")
    case False
    then show ?thesis by (subst checkResponse_loop.simps) (auto simp: Let_def)
  next
    case True
    then have po: "paramOffsets data offset = offset # paramOffsets data (offset + ?len)"
      by (subst paramOffsets.simps) (auto simp: Let_def)
    have rest: "\<forall>off \<in> set (paramOffsets data (offset + ?len)).
       paramTypeAt data off = 287 \<longrightarrow> off + 6 \<le> length data \<and> u16be data (off + 4) = 0"
      using "1.prems" po by simp
    show ?thesis
    proof (cases "?ty = 287")
      case False
      have "checkResponse_loop data offset success
                 = checkResponse_loop data (offset + ?len) success"
        using True False by (subst checkResponse_loop.simps) (simp add: Let_def)
      with "1.IH"(3) [OF _ refl refl _ False rest] True show ?thesis by simp
    next
      case ty: True
      with "1.prems" po have z: "offset + 6 \<le> length data" "u16be data (offset + 4) = 0"
        by (simp_all add: paramTypeAt_def)
      then have rd: "readUInt16BE data (offset + 4) = Inr 0"
        by (simp add: readUInt16BE_def)
      have "checkResponse_loop data offset success
                 = checkResponse_loop data (offset + ?len) success"
        using True ty rd by (subst checkResponse_loop.simps) (simp add: Let_def bindE_def)
      with "1.IH"(2) [OF _ refl refl _ ty rd _ rest] True show ?thesis by simp
    qed
  qed
qed

lemma sendMessage_keeps:
  "sendMessage st t p = Inr st' \<Longrightarrow>
     socket st' = socket st \<and> connected st' = connected st
   \<and> reconnectTimer st' = reconnectTimer st \<and> shouldReconnect st' = shouldReconnect st
   \<and> isShuttingDown st' = isShuttingDown st \<and> rospecStarted st' = rospecStarted st
   \<and> emitted st' = emitted st \<and> cfg st' = cfg st"
  by (auto simp: sendMessage_def bindE_def split: if_splits sum.splits)

lemma bindE_eq_Inr: "bindE m f = Inr r \<longleftrightarrow> (\<exists>v. m = Inr v \<and> f v = Inr r)"
  by (cases m) (simp_all add: bindE_def)

lemma senders_keep:
  assumes "sendAddROSpec st = Inr st' \<or> sendEnableROSpec st = Inr st'
         \<or> sendStartROSpec st = Inr st' \<or> sendDeleteROSpec st = Inr st'
         \<or> sendKeepaliveAck st = Inr st'"
  shows "socket st' = socket st \<and> connected st' = connected st
   \<and> reconnectTimer st' = reconnectTimer st \<and> shouldReconnect st' = shouldReconnect st
   \<and> isShuttingDown st' = isShuttingDown st \<and> rospecStarted st' = rospecStarted st
   \<and> emitted st' = emitted st \<and> cfg st' = cfg st"
  using assms
  unfolding sendAddROSpec_def sendEnableROSpec_def sendStartROSpec_def sendDeleteROSpec_def
    sendKeepaliveAck_def bindE_eq_Inr
  by (metis sendMessage_keeps)

text \<open>
  Claim C10. A response in which the parameter walk finds no LLRPStatus passes the check,
  and so does one whose every LLRPStatus has the code 0: after either, a
  START_ROSPEC_RESPONSE marks the ROSpec as started and announces \<open>ready\<close>, and the
  other responses of the chain send the next request.
\<close>

theorem checkResponse_without_status:
  assumes "\<forall>off \<in> set (paramOffsets data 10). paramTypeAt data off \<noteq> 287"
  shows "checkResponse data = Inr True
       \<and> (msgTypeOf data = 31 \<longrightarrow> processMessage st data = sendAddROSpec st)
       \<and> (msgTypeOf data = 30 \<longrightarrow> processMessage st data = sendEnableROSpec st)
       \<and> (msgTypeOf data = 34 \<longrightarrow> processMessage st data = sendStartROSpec st)
       \<and> (msgTypeOf data = 32 \<longrightarrow>
            processMessage st data =
              Inr (st\<lparr>rospecStarted := True, emitted := emitted st @ [Ready]\<rparr>))
       \<and> (\<forall>data'. (\<forall>off \<in> set (paramOffsets data' 10). paramTypeAt data' off = 287 \<longrightarrow>
                       off + 6 \<le> length data' \<and> u16be data' (off + 4) = 0)
                   \<longrightarrow> checkResponse data' = checkResponse data)"
proof -
  have c: "checkResponse data = Inr True"
    unfolding checkResponse_def using assms by (intro checkResponse_loop_zero) simp
  have z: "\<forall>data'. (\<forall>off \<in> set (paramOffsets data' 10). paramTypeAt data' off = 287 \<longrightarrow>
                       off + 6 \<le> length data' \<and> u16be data' (off + 4) = 0)
                   \<longrightarrow> checkResponse data' = checkResponse data"
    unfolding c unfolding checkResponse_def by (intro allI impI checkResponse_loop_zero)
  show ?thesis
    using z by (simp add: c processMessage_def Let_def bindE_def)
qed


lemmas checkResponse_eval =
  checkResponse_def checkResponse_loop.simps checkResponse_nested.simps
  Let_def u16be_def bindE_def readUInt16BE_def

lemmas send_eval =
  sendMessage_def sendMessage_frame_def sendEnableROSpec_def sendStartROSpec_def
  sendDeleteROSpec_def sendKeepaliveAck_def writeUInt8_def writeUInt32BE_def

lemma paramOffsets_startRospecNoStatus: "paramOffsets startRospecNoStatus 10 = [10]"
  by (simp add: paramOffsets.simps startRospecNoStatus_def u16be_def Let_def)

theorem checkResponse_without_status_witness:
  "paramOffsets startRospecNoStatus 10 = [10]
 \<and> paramTypeAt startRospecNoStatus 10 = 240
 \<and> msgTypeOf startRospecNoStatus = 32
 \<and> checkResponse startRospecNoStatus = Inr True
 \<and> processMessage connectedReader startRospecNoStatus =
       Inr (connectedReader\<lparr>rospecStarted := True, emitted := [Connected, Ready]\<rparr>)"
proof -
  have h: "\<forall>off \<in> set (paramOffsets startRospecNoStatus 10).
             paramTypeAt startRospecNoStatus off \<noteq> 287"
    unfolding paramOffsets_startRospecNoStatus
    by (simp add: paramTypeAt_def startRospecNoStatus_def u16be_def)
  have t: "msgTypeOf startRospecNoStatus = 32"
    by (simp add: msgTypeOf_def byteAt_def startRospecNoStatus_def)
  have e: "emitted connectedReader @ [Ready] = [Connected, Ready]"
    by (simp add: connectedReader_def)
  have y: "paramTypeAt startRospecNoStatus 10 = 240"
    by (simp add: paramTypeAt_def startRospecNoStatus_def u16be_def)
  from checkResponse_without_status [OF h, of connectedReader] t e y
    paramOffsets_startRospecNoStatus
  show ?thesis by simp
qed

lemma paramOffsets_startRospecRejected: "paramOffsets startRospecRejected 10 = [10]"
  by (simp add: paramOffsets.simps startRospecRejected_def u16be_def Let_def)

text \<open>
  Claim C1, as the code has it. When a response of the startup chain carries an LLRPStatus
  with a status code other than 0 and \<open>processMessage\<close> returns, \<open>checkResponse\<close>
  has returned false, and the controller does not tear down: the socket, the connection
  flag, the reconnect timer and the reconnect switches are as before, the ROSpec is not
  marked as started and no event is emitted. After a START_ROSPEC_RESPONSE the whole state
  is as before: nothing is sent.
\<close>

theorem nonzero_status_response:
  assumes "\<exists>off \<in> set (paramOffsets data 10).
             paramTypeAt data off = 287 \<and> u16be data (off + 4) \<noteq> 0"
    and "msgTypeOf data = 31 \<or> msgTypeOf data = 30 \<or> msgTypeOf data = 34 \<or> msgTypeOf data = 32"
    and "processMessage st data = Inr st'"
  shows "checkResponse data = Inr False
       \<and> socket st' = socket st \<and> connected st' = connected st
       \<and> reconnectTimer st' = reconnectTimer st \<and> shouldReconnect st' = shouldReconnect st
       \<and> isShuttingDown st' = isShuttingDown st
       \<and> rospecStarted st' = rospecStarted st \<and> emitted st' = emitted st
       \<and> (msgTypeOf data = 32 \<longrightarrow> st' = st)"
proof -
  from assms(2,3) obtain b where b: "checkResponse data = Inr b"
    by (auto simp: processMessage_def Let_def bindE_eq_Inr)
  from checkResponse_loop_result [OF b [unfolded checkResponse_def]] assms(1)
  have "b = False" by auto
  with b have c: "checkResponse data = Inr False" by simp
  from assms(2) show ?thesis
  proof (elim disjE)
    assume t: "msgTypeOf data = 31"
    with assms(3) c have "sendAddROSpec st = Inr st'"
      by (simp add: processMessage_def Let_def bindE_def)
    with senders_keep [of st st'] c t show ?thesis by simp
  next
    assume t: "msgTypeOf data = 30"
    with assms(3) c have "sendEnableROSpec st = Inr st'"
      by (simp add: processMessage_def Let_def bindE_def)
    with senders_keep [of st st'] c t show ?thesis by simp
  next
    assume t: "msgTypeOf data = 34"
    with assms(3) c have "sendStartROSpec st = Inr st'"
      by (simp add: processMessage_def Let_def bindE_def)
    with senders_keep [of st st'] c t show ?thesis by simp
  next
    assume t: "msgTypeOf data = 32"
    with assms(3) c have "st' = st"
      by (simp add: processMessage_def Let_def bindE_def)
    with c show ?thesis by simp
  qed
qed

theorem nonzero_status_response_witness:
  "(\<exists>off \<in> set (paramOffsets startRospecRejected 10).
      paramTypeAt startRospecRejected off = 287 \<and> u16be startRospecRejected (off + 4) \<noteq> 0)
 \<and> msgTypeOf startRospecRejected = 32
 \<and> processMessage connectedReader startRospecRejected = Inr connectedReader
 \<and> checkResponse startRospecRejected = Inr False
 \<and> rospecStarted connectedReader = False"
proof -
  have h: "\<exists>off \<in> set (paramOffsets startRospecRejected 10).
      paramTypeAt startRospecRejected off = 287 \<and> u16be startRospecRejected (off + 4) \<noteq> 0"
    unfolding paramOffsets_startRospecRejected
    by (simp add: paramTypeAt_def startRospecRejected_def u16be_def)
  have t: "msgTypeOf startRospecRejected = 32"
    by (simp add: msgTypeOf_def byteAt_def startRospecRejected_def)
  have p: "processMessage connectedReader startRospecRejected = Inr connectedReader"
    unfolding processMessage_def t
    by (simp add: checkResponse_eval startRospecRejected_def)
  have r: "rospecStarted connectedReader = False" by (simp add: connectedReader_def)
  from nonzero_status_response [OF h _ p] t p h r
  show ?thesis by simp
qed

text \<open>
  The claim as written has the controller stop the chain and tear the session down. On
  the rejected ADD_ROSPEC of scenario S3 the check fails and the controller sends
  ENABLE_ROSPEC all the same, with the connection as it was and no reconnect scheduled.
\<close>

theorem rejected_add_counterexample:
  "checkResponse addRospecRejected = Inr False
 \<and> processMessage connectedReader addRospecRejected =
     Inr (connectedReader\<lparr>messageId := 4,
            written := written connectedReader @
              [[0x04, 0x18, 0x00, 0x00, 0x00, 0x0E, 0x00, 0x00, 0x00, 0x03,
                0x00, 0x00, 0x00, 0x01]]\<rparr>)
 \<and> connected connectedReader \<and> socket connectedReader \<and> \<not> reconnectTimer connectedReader"
proof -
  have c: "checkResponse addRospecRejected = Inr False"
    by (simp add: checkResponse_eval addRospecRejected_def)
  have t: "msgTypeOf addRospecRejected = 30"
    by (simp add: msgTypeOf_def byteAt_def addRospecRejected_def)
  have p: "processMessage connectedReader addRospecRejected =
     Inr (connectedReader\<lparr>messageId := 4,
            written := written connectedReader @
              [[0x04, 0x18, 0x00, 0x00, 0x00, 0x0E, 0x00, 0x00, 0x00, 0x03,
                0x00, 0x00, 0x00, 0x01]]\<rparr>)"
    unfolding processMessage_def t c
    by (simp add: send_eval bindE_def connectedReader_def)
  from c p show ?thesis by (simp add: connectedReader_def)
qed

section \<open>Properties of the tag record decoder\<close>

lemma scanForward_Some_iff:
  "scanForward data offset bound j = Some k \<longleftrightarrow>
     (j \<le> k \<and> k \<le> bound \<and> offset + k < length data
      \<and> byteAt data (offset + k) AND 0x80 \<noteq> 0
      \<and> (\<forall>i. j \<le> i \<and> i < k \<longrightarrow> byteAt data (offset + i) AND 0x80 = 0))"
proof (induction data offset bound j rule: scanForward.induct)
  case (1 data offset bound j)
  show ?case
  proof (cases "j \<le> bound \<and> offset + j < length data")
    case False
    then have "scanForward data offset bound j = None"
      by (subst scanForward.simps) auto
    moreover have "\<not> (j \<le> k \<and> k \<le> bound \<and> offset + k < length data)"
      using False by auto
    ultimately show ?thesis by auto
  next
    case True
    show ?thesis
    proof (cases "byteAt data (offset + j) AND 0x80 \<noteq> 0")
      case msb: True
      then have "scanForward data offset bound j = Some j"
        using True by (subst scanForward.simps) simp
      moreover have "k = j" if "j \<le> k" "byteAt data (offset + k) AND 0x80 \<noteq> 0"
        "\<forall>i. j \<le> i \<and> i < k \<longrightarrow> byteAt data (offset + i) AND 0x80 = 0"
        using that msb by (metis le_neq_implies_less order_refl)
      ultimately show ?thesis using True msb by auto
    next
      case False
      then have "scanForward data offset bound j = scanForward data offset bound (j + 1)"
        using True by (subst scanForward.simps) simp
      moreover have "(j \<le> k \<and> k \<le> bound \<and> offset + k < length data
            \<and> byteAt data (offset + k) AND 0x80 \<noteq> 0
            \<and> (\<forall>i. j \<le> i \<and> i < k \<longrightarrow> byteAt data (offset + i) AND 0x80 = 0))
         \<longleftrightarrow> (j + 1 \<le> k \<and> k \<le> bound \<and> offset + k < length data
            \<and> byteAt data (offset + k) AND 0x80 \<noteq> 0
            \<and> (\<forall>i. j + 1 \<le> i \<and> i < k \<longrightarrow> byteAt data (offset + i) AND 0x80 = 0))"
        (is "?L \<longleftrightarrow> ?R")
      proof
        assume l: ?L
        then have "k \<noteq> j" using False by auto
        with l have "j + 1 \<le> k" by simp
        moreover from l have "\<forall>i. j + 1 \<le> i \<and> i < k \<longrightarrow> byteAt data (offset + i) AND 0x80 = 0"
          by simp
        ultimately show ?R using l by simp
      next
        assume r: ?R
        have "\<forall>i. j \<le> i \<and> i < k \<longrightarrow> byteAt data (offset + i) AND 0x80 = 0"
        proof (intro allI impI)
          fix i assume i: "j \<le> i \<and> i < k"
          show "byteAt data (offset + i) AND 0x80 = 0"
          proof (cases "i = j")
            case True
            with False show ?thesis by simp
          next
            case ne: False
            with i have "j + 1 \<le> i \<and> i < k" by simp
            with r show ?thesis by blast
          qed
        qed
        with r show ?L by simp
      qed
      ultimately show ?thesis using "1.IH" [OF True False] by simp
    qed
  qed
qed

lemma scanForward_None_iff:
  "scanForward data offset bound j = None \<longleftrightarrow>
     (\<forall>i. j \<le> i \<and> i \<le> bound \<and> offset + i < length data
          \<longrightarrow> byteAt data (offset + i) AND 0x80 = 0)"
proof -
  have "scanForward data offset bound j = None \<longleftrightarrow> (\<forall>k. scanForward data offset bound j \<noteq> Some k)"
    by auto
  also have "\<dots> \<longleftrightarrow> (\<forall>i. j \<le> i \<and> i \<le> bound \<and> offset + i < length data
          \<longrightarrow> byteAt data (offset + i) AND 0x80 = 0)"
  proof
    assume a: "\<forall>k. scanForward data offset bound j \<noteq> Some k"
    show "\<forall>i. j \<le> i \<and> i \<le> bound \<and> offset + i < length data
          \<longrightarrow> byteAt data (offset + i) AND 0x80 = 0"
    proof (rule ccontr)
      assume "\<not> ?thesis"
      then have ex: "\<exists>i. j \<le> i \<and> i \<le> bound \<and> offset + i < length data
                   \<and> byteAt data (offset + i) AND 0x80 \<noteq> 0" by auto
      define k where "k = (LEAST i. j \<le> i \<and> i \<le> bound \<and> offset + i < length data
                   \<and> byteAt data (offset + i) AND 0x80 \<noteq> 0)"
      from ex have k: "j \<le> k \<and> k \<le> bound \<and> offset + k < length data
                   \<and> byteAt data (offset + k) AND 0x80 \<noteq> 0"
        unfolding k_def by (rule LeastI_ex)
      have "\<forall>i. j \<le> i \<and> i < k \<longrightarrow> byteAt data (offset + i) AND 0x80 = 0"
      proof (intro allI impI)
        fix i assume i: "j \<le> i \<and> i < k"
        show "byteAt data (offset + i) AND 0x80 = 0"
        proof (rule ccontr)
          assume "byteAt data (offset + i) AND 0x80 \<noteq> 0"
          with i k have "j \<le> i \<and> i \<le> bound \<and> offset + i < length data
                   \<and> byteAt data (offset + i) AND 0x80 \<noteq> 0" by auto
          then have "k \<le> i" unfolding k_def by (rule Least_le)
          with i show False by simp
        qed
      qed
      with k have "scanForward data offset bound j = Some k"
        by (simp add: scanForward_Some_iff)
      with a show False by simp
    qed
  next
    assume "\<forall>i. j \<le> i \<and> i \<le> bound \<and> offset + i < length data
          \<longrightarrow> byteAt data (offset + i) AND 0x80 = 0"
    then show "\<forall>k. scanForward data offset bound j \<noteq> Some k"
      by (auto simp: scanForward_Some_iff)
  qed
  finally show ?thesis .
qed


lemma loop_unknown_TV:
  assumes "offset < length data" and "byteAt data offset AND 0x80 \<noteq> 0"
    and "byteAt data offset AND 0x7F \<notin> {1, 6, 7, 8, 9, 10, 13, 14, 15, 16}"
  shows "parseTagReportData_loop data offset tag =
           (case scanForward data offset 16 1 of
              Some j \<Rightarrow> parseTagReportData_loop data (offset + j) tag
            | None \<Rightarrow> tag)"
  using assms by (subst parseTagReportData_loop.simps) (simp add: Let_def)

lemma loop_malformed_TLV:
  assumes "offset + 3 < length data" and "byteAt data offset AND 0x80 = 0"
    and "u16be data (offset + 2) = 0 \<or> offset + u16be data (offset + 2) > length data"
  shows "parseTagReportData_loop data offset tag =
           (case scanForward data offset 4 1 of
              Some skip \<Rightarrow> parseTagReportData_loop data (offset + skip) tag
            | None \<Rightarrow> tag)"
  using assms by (subst parseTagReportData_loop.simps) (auto simp: Let_def)

lemma loop_other_TLV:
  assumes "offset + 3 < length data" and "byteAt data offset AND 0x80 = 0"
    and "u16be data (offset + 2) \<noteq> 0" and "offset + u16be data (offset + 2) \<le> length data"
    and "u16be data offset AND 0x3FF \<noteq> 241" and "u16be data offset AND 0x3FF \<noteq> 13"
  shows "parseTagReportData_loop data offset tag =
           parseTagReportData_loop data (offset + u16be data (offset + 2)) tag"
  using assms by (subst parseTagReportData_loop.simps) (auto simp: Let_def)

lemma loop_EPCData:
  assumes "offset + 5 < length data" and "byteAt data offset AND 0x80 = 0"
    and "u16be data offset AND 0x3FF = 241"
    and "u16be data (offset + 2) \<noteq> 0" and "offset + u16be data (offset + 2) \<le> length data"
    and "offset + 6 + u16be data (offset + 4) div 8 \<le> length data"
  shows "parseTagReportData_loop data offset tag =
           parseTagReportData_loop data (offset + u16be data (offset + 2))
             (tag\<lparr>epc := Some (toHexUpper (slice data (offset + 6)
                                   (offset + 6 + u16be data (offset + 4) div 8)))\<rparr>)"
  using assms by (subst parseTagReportData_loop.simps) (auto simp: Let_def)

lemma loop_end: "offset \<ge> length data \<Longrightarrow> parseTagReportData_loop data offset tag = tag"
  by (subst parseTagReportData_loop.simps) simp


lemmas tag_eval =
  parseTagReportData_def parseTagReportData_loop.simps scanForward.simps byteAt_def
  u16be_def u32be_def u64be_def i8_def toHexUpper_def hexDigit_def slice_def Let_def

text \<open>
  Claim C5, as the code has it. After a TV parameter of a type outside the table the
  decoder looks at the next 16 bytes of the record for one with the top bit set; after a
  TLV whose length is 0 or runs past the end of the record it looks at the next 4 bytes
  only. It resumes at the first such byte and abandons the record when there is none. A
  TLV of length 1, 2 or 3 is not taken as malformed: the decoder steps over it by its
  length. The last two parts say what the scan returns.
\<close>

theorem resynchronisation:
  "(offset < length data \<and> byteAt data offset AND 0x80 \<noteq> 0
      \<and> byteAt data offset AND 0x7F \<notin> {1, 6, 7, 8, 9, 10, 13, 14, 15, 16} \<longrightarrow>
      parseTagReportData_loop data offset tag =
        (case scanForward data offset 16 1 of
           Some j \<Rightarrow> parseTagReportData_loop data (offset + j) tag
         | None \<Rightarrow> tag))
 \<and> (offset + 3 < length data \<and> byteAt data offset AND 0x80 = 0
      \<and> (u16be data (offset + 2) = 0 \<or> offset + u16be data (offset + 2) > length data) \<longrightarrow>
      parseTagReportData_loop data offset tag =
        (case scanForward data offset 4 1 of
           Some skip \<Rightarrow> parseTagReportData_loop data (offset + skip) tag
         | None \<Rightarrow> tag))
 \<and> (offset + 3 < length data \<and> byteAt data offset AND 0x80 = 0
      \<and> u16be data (offset + 2) \<in> {1, 2, 3}
      \<and> u16be data offset AND 0x3FF \<noteq> 241 \<and> u16be data offset AND 0x3FF \<noteq> 13 \<longrightarrow>
      parseTagReportData_loop data offset tag =
        parseTagReportData_loop data (offset + u16be data (offset + 2)) tag)
 \<and> (scanForward data offset bound 1 = Some k \<longleftrightarrow>
      1 \<le> k \<and> k \<le> bound \<and> offset + k < length data
      \<and> byteAt data (offset + k) AND 0x80 \<noteq> 0
      \<and> (\<forall>i. 1 \<le> i \<and> i < k \<longrightarrow> byteAt data (offset + i) AND 0x80 = 0))
 \<and> (scanForward data offset bound 1 = None \<longleftrightarrow>
      (\<forall>i. 1 \<le> i \<and> i \<le> bound \<and> offset + i < length data
           \<longrightarrow> byteAt data (offset + i) AND 0x80 = 0))"
proof (intro conjI impI)
  assume "offset < length data \<and> byteAt data offset AND 0x80 \<noteq> 0
      \<and> byteAt data offset AND 0x7F \<notin> {1, 6, 7, 8, 9, 10, 13, 14, 15, 16}"
  then show "parseTagReportData_loop data offset tag =
        (case scanForward data offset 16 1 of
           Some j \<Rightarrow> parseTagReportData_loop data (offset + j) tag
         | None \<Rightarrow> tag)"
    by (intro loop_unknown_TV) simp_all
next
  assume "offset + 3 < length data \<and> byteAt data offset AND 0x80 = 0
      \<and> (u16be data (offset + 2) = 0 \<or> offset + u16be data (offset + 2) > length data)"
  then show "parseTagReportData_loop data offset tag =
        (case scanForward data offset 4 1 of
           Some skip \<Rightarrow> parseTagReportData_loop data (offset + skip) tag
         | None \<Rightarrow> tag)"
    by (intro loop_malformed_TLV) simp_all
next
  assume a: "offset + 3 < length data \<and> byteAt data offset AND 0x80 = 0
      \<and> u16be data (offset + 2) \<in> {1, 2, 3}
      \<and> u16be data offset AND 0x3FF \<noteq> 241 \<and> u16be data offset AND 0x3FF \<noteq> 13"
  then have "u16be data (offset + 2) \<noteq> 0" "offset + u16be data (offset + 2) \<le> length data"
    by auto
  with a show "parseTagReportData_loop data offset tag =
        parseTagReportData_loop data (offset + u16be data (offset + 2)) tag"
    by (intro loop_other_TLV) simp_all
next
  show "scanForward data offset bound 1 = Some k \<longleftrightarrow>
      1 \<le> k \<and> k \<le> bound \<and> offset + k < length data
      \<and> byteAt data (offset + k) AND 0x80 \<noteq> 0
      \<and> (\<forall>i. 1 \<le> i \<and> i < k \<longrightarrow> byteAt data (offset + i) AND 0x80 = 0)"
    by (rule scanForward_Some_iff)
next
  show "scanForward data offset bound 1 = None \<longleftrightarrow>
      (\<forall>i. 1 \<le> i \<and> i \<le> bound \<and> offset + i < length data
           \<longrightarrow> byteAt data (offset + i) AND 0x80 = 0)"
    by (rule scanForward_None_iff)
qed

theorem resynchronisation_witness:
  "0 < length unknownTvThenAntenna
 \<and> byteAt unknownTvThenAntenna 0 AND 0x80 \<noteq> 0
 \<and> byteAt unknownTvThenAntenna 0 AND 0x7F = 127
 \<and> scanForward unknownTvThenAntenna 0 16 1 = Some 3
 \<and> parseTagReportData unknownTvThenAntenna = emptyTag\<lparr>antenna := Some 3\<rparr>
 \<and> byteAt zeroLengthThenEpc 0 AND 0x80 = 0
 \<and> u16be zeroLengthThenEpc 2 = 0
 \<and> scanForward zeroLengthThenEpc 0 4 1 = None
 \<and> parseTagReportData_loop zeroLengthThenEpc 0 emptyTag = emptyTag"
proof -
  have h1: "0 < length unknownTvThenAntenna \<and> byteAt unknownTvThenAntenna 0 AND 0x80 \<noteq> 0
      \<and> byteAt unknownTvThenAntenna 0 AND 0x7F \<notin> {1, 6, 7, 8, 9, 10, 13, 14, 15, 16}"
    by (simp add: unknownTvThenAntenna_def byteAt_def)
  have t: "byteAt unknownTvThenAntenna 0 AND 0x7F = 127"
    by (simp add: unknownTvThenAntenna_def byteAt_def)
  have s1: "scanForward unknownTvThenAntenna 0 16 1 = Some 3"
    by (simp add: scanForward.simps unknownTvThenAntenna_def byteAt_def)
  have r1: "parseTagReportData_loop unknownTvThenAntenna 3 emptyTag = emptyTag\<lparr>antenna := Some 3\<rparr>"
    by (simp add: tag_eval unknownTvThenAntenna_def emptyTag_def)
  have h2: "0 + 3 < length zeroLengthThenEpc \<and> byteAt zeroLengthThenEpc 0 AND 0x80 = 0
      \<and> (u16be zeroLengthThenEpc (0 + 2) = 0
           \<or> 0 + u16be zeroLengthThenEpc (0 + 2) > length zeroLengthThenEpc)"
    by (simp add: zeroLengthThenEpc_def byteAt_def u16be_def)
  have s2: "scanForward zeroLengthThenEpc 0 4 1 = None"
    by (simp add: scanForward.simps zeroLengthThenEpc_def byteAt_def)
  from resynchronisation [of 0 unknownTvThenAntenna emptyTag 16 3] h1
  have "parseTagReportData_loop unknownTvThenAntenna 0 emptyTag =
          (case scanForward unknownTvThenAntenna 0 16 1 of
             Some j \<Rightarrow> parseTagReportData_loop unknownTvThenAntenna (0 + j) emptyTag
           | None \<Rightarrow> emptyTag)"
    by blast
  then have a: "parseTagReportData unknownTvThenAntenna = emptyTag\<lparr>antenna := Some 3\<rparr>"
    unfolding s1 by (simp add: parseTagReportData_def emptyTag_def [symmetric] r1)
  from resynchronisation [of 0 zeroLengthThenEpc emptyTag 4 1] h2
  have "parseTagReportData_loop zeroLengthThenEpc 0 emptyTag =
          (case scanForward zeroLengthThenEpc 0 4 1 of
             Some skip \<Rightarrow> parseTagReportData_loop zeroLengthThenEpc (0 + skip) emptyTag
           | None \<Rightarrow> emptyTag)"
    by blast
  then have b: "parseTagReportData_loop zeroLengthThenEpc 0 emptyTag = emptyTag"
    unfolding s2 by simp
  have u: "u16be zeroLengthThenEpc 2 = 0"
    by (simp add: zeroLengthThenEpc_def u16be_def)
  from h1 t s1 a h2 s2 b u show ?thesis by simp
qed

text \<open>
  The claim as written scans 16 bytes after a malformed TLV too. In this record a TLV
  of length 0 stands at offset 0 and the next byte with the top bit set at offset 8: the
  decoder gives the record up with no EPC, where decoding from offset 8 finds one.
\<close>

theorem resynchronisation_counterexample:
  "u16be zeroLengthThenEpc 2 = 0
 \<and> byteAt zeroLengthThenEpc 8 AND 0x80 \<noteq> 0
 \<and> scanForward zeroLengthThenEpc 0 16 1 = Some 8
 \<and> parseTagReportData zeroLengthThenEpc = emptyTag
 \<and> parseTagReportData_loop zeroLengthThenEpc 8 emptyTag =
       emptyTag\<lparr>epc := Some ''300A00010203040506070809''\<rparr>"
  by (simp add: tag_eval zeroLengthThenEpc_def emptyTag_def)

text \<open>
  Claim C6, as the code has it. For an EPCData parameter of \<open>b\<close> bits that the decoder
  accepts, the EPC is the hexadecimal text of the \<open>b div 8\<close> bytes from offset 6 of the
  parameter, when they lie inside the record; it is what the decoder returns when the
  parameter ends the record. A last partial byte is left out.
\<close>

theorem epcData_whole_bytes:
  assumes "offset + 5 < length data" and "byteAt data offset AND 0x80 = 0"
    and "u16be data offset AND 0x3FF = 241"
    and "u16be data (offset + 2) \<noteq> 0" and "offset + u16be data (offset + 2) \<le> length data"
    and "offset + 6 + u16be data (offset + 4) div 8 \<le> length data"
  shows "parseTagReportData_loop data offset tag =
           parseTagReportData_loop data (offset + u16be data (offset + 2))
             (tag\<lparr>epc := Some (toHexUpper (slice data (offset + 6)
                                   (offset + 6 + u16be data (offset + 4) div 8)))\<rparr>)
       \<and> length (slice data (offset + 6) (offset + 6 + u16be data (offset + 4) div 8))
           = u16be data (offset + 4) div 8
       \<and> (offset + u16be data (offset + 2) = length data \<longrightarrow>
            epc (parseTagReportData_loop data offset tag) =
              Some (toHexUpper (slice data (offset + 6)
                                  (offset + 6 + u16be data (offset + 4) div 8))))"
proof -
  note step = loop_EPCData [OF assms, of tag]
  have len: "length (slice data (offset + 6) (offset + 6 + u16be data (offset + 4) div 8))
           = u16be data (offset + 4) div 8"
    using assms(6) by (simp add: slice_def)
  have "epc (parseTagReportData_loop data offset tag) =
              Some (toHexUpper (slice data (offset + 6)
                                  (offset + 6 + u16be data (offset + 4) div 8)))"
    if "offset + u16be data (offset + 2) = length data"
    unfolding step unfolding that by (simp add: loop_end)
  with step len show ?thesis by blast
qed

theorem epcData_whole_bytes_witness:
  "0 + 5 < length epcData12Bits
 \<and> u16be epcData12Bits 0 AND 0x3FF = 241
 \<and> u16be epcData12Bits (0 + 4) = 12
 \<and> epc (parseTagReportData epcData12Bits) = Some ''AB''"
proof -
  have h: "0 + 5 < length epcData12Bits" "byteAt epcData12Bits 0 AND 0x80 = 0"
    "u16be epcData12Bits 0 AND 0x3FF = 241"
    "u16be epcData12Bits (0 + 2) \<noteq> 0" "0 + u16be epcData12Bits (0 + 2) \<le> length epcData12Bits"
    "0 + 6 + u16be epcData12Bits (0 + 4) div 8 \<le> length epcData12Bits"
    by (simp_all add: epcData12Bits_def byteAt_def u16be_def)
  have b: "u16be epcData12Bits (0 + 4) = 12" "0 + u16be epcData12Bits (0 + 2) = length epcData12Bits"
    by (simp_all add: epcData12Bits_def u16be_def)
  have x: "toHexUpper (slice epcData12Bits (0 + 6) (0 + 6 + 12 div 8)) = ''AB''"
    by (simp add: epcData12Bits_def toHexUpper_def hexDigit_def slice_def)
  from epcData_whole_bytes [OF h, of emptyTag] b(2)
  have "epc (parseTagReportData_loop epcData12Bits 0 emptyTag) =
          Some (toHexUpper (slice epcData12Bits (0 + 6)
                              (0 + 6 + u16be epcData12Bits (0 + 4) div 8)))"
    by blast
  then have "epc (parseTagReportData epcData12Bits) = Some ''AB''"
    unfolding b(1) x by (simp add: parseTagReportData_def emptyTag_def)
  with h b show ?thesis by simp
qed

text \<open>
  The claim as written takes \<open>ceil(b / 8)\<close> bytes. For the EPCData of 12 bits with the
  bytes AB CD that would be both bytes; the decoder returns the first one.
\<close>

theorem epcData_ceil_counterexample:
  "u16be epcData12Bits 4 = 12
 \<and> toHexUpper (slice epcData12Bits 6 (6 + (12 + 7) div 8)) = ''ABCD''
 \<and> epc (parseTagReportData epcData12Bits) = Some ''AB''
 \<and> ''AB'' \<noteq> ''ABCD''"
  by (simp add: tag_eval epcData12Bits_def)

section \<open>Properties of the tag report guard\<close>

lemma parseTagReport_loop_emits:
  "parseTagReport_loop data offset st =
     st\<lparr>emitted := emitted st @ map Tag (observations (cfg st) data offset)\<rparr>"
proof (induction data offset st rule: parseTagReport_loop.induct)
  case (1 data offset st)
  let ?len = "u16be data (offset + 2)"
  let ?ty = "u16be data offset AND 0x3FF"
  show ?case
  proof (cases "offset + 4 \<le> length data \<and> \<not> (?len = 0 \<or> ?len > length data - offset)")
    case False
    then have "paramOffsets data offset = []"
      by (subst paramOffsets.simps) (auto simp: Let_def)
    moreover have "parseTagReport_loop data offset st = st"
      using False by (subst parseTagReport_loop.simps) (auto simp: Let_def)
    ultimately show ?thesis by (simp add: observations_def tagReportRecords_def)
  next
    case True
    then have po: "paramOffsets data offset = offset # paramOffsets data (offset + ?len)"
      by (subst paramOffsets.simps) (auto simp: Let_def)
    show ?thesis
    proof (cases "?ty = 240")
      case False
      have "parseTagReport_loop data offset st = parseTagReport_loop data (offset + ?len) st"
        using True False by (subst parseTagReport_loop.simps) (simp add: Let_def)
      also have "\<dots> = st\<lparr>emitted := emitted st @
                    map Tag (observations (cfg st) data (offset + ?len))\<rparr>"
        using "1.IH"(2) [OF _ refl refl _ False] True by simp
      also have "observations (cfg st) data (offset + ?len) = observations (cfg st) data offset"
        using False by (simp add: observations_def tagReportRecords_def po paramTypeAt_def)
      finally show ?thesis .
    next
      case ty: True
      let ?tag = "parseTagReportData (slice data (offset + 4) (offset + ?len))"
      let ?st1 = "(if epcFalsy ?tag then st
                     else st\<lparr>emitted := emitted st @
                            [Tag (if antennaFalsy ?tag \<and> length (antennas (cfg st)) = 1
                                  then ?tag\<lparr>antenna := Some (antennas (cfg st) ! 0)\<rparr>
                                  else ?tag)]\<rparr>)"
      have "parseTagReport_loop data offset st = parseTagReport_loop data (offset + ?len) ?st1"
        using True ty by (subst parseTagReport_loop.simps) (simp add: Let_def)
      also have "\<dots> = ?st1\<lparr>emitted := emitted ?st1 @
                    map Tag (observations (cfg ?st1) data (offset + ?len))\<rparr>"
        using "1.IH"(1) [OF _ refl refl _ ty refl refl] True by simp
      also have "\<dots> = st\<lparr>emitted := emitted st @ map Tag (observations (cfg st) data offset)\<rparr>"
        using ty
        by (simp add: observations_def tagReportRecords_def po paramTypeAt_def withSoleAntenna_def)
      finally show ?thesis .
    qed
  qed
qed


lemma addsTables_rospecStarted: "addsTables s s' E H \<Longrightarrow> rospecStarted s' = rospecStarted s"
  unfolding addsTables_def by (cases s, cases s') auto

lemma parseCapabilities_rospecStarted:
  assumes "parseCapabilities st data = Inr (ok, st1)"
  shows "rospecStarted st1 = rospecStarted st"
proof -
  have f: "rospecStarted (parseCapabilities_from data offset st) = rospecStarted st" for offset
  proof -
    obtain E H where "\<And>s. addsTables s (parseCapabilities_loop data offset s) E H"
      using parseCapabilities_loop_adds [of data offset] by blast
    from addsTables_rospecStarted [OF this] show ?thesis
      by (simp add: parseCapabilities_from_def Let_def)
  qed
  from assms show ?thesis
    by (auto simp: parseCapabilities_def Let_def bindE_def readUInt16BE_def f split: if_splits)
qed

lemma computePowerIndices_loop_rospecStarted:
  "rospecStarted (computePowerIndices_loop ants st) = rospecStarted st"
  by (induction ants arbitrary: st) simp_all

lemma parseTagReport_rospecStarted: "rospecStarted (parseTagReport st data) = rospecStarted st"
  by (simp add: parseTagReport_def parseTagReport_loop_emits)

lemma processMessage_rospecStarted:
  assumes "processMessage st data = Inr st'"
  shows "rospecStarted st' \<longleftrightarrow>
           rospecStarted st \<or> (msgTypeOf data = 32 \<and> checkResponse data = Inr True)"
proof -
  consider "msgTypeOf data = 12" | "msgTypeOf data = 63" | "msgTypeOf data = 11"
    | "msgTypeOf data = 100" | "msgTypeOf data = 13" | "msgTypeOf data = 31"
    | "msgTypeOf data = 30" | "msgTypeOf data = 34" | "msgTypeOf data = 32"
    | "msgTypeOf data = 61" | "msgTypeOf data = 62"
    | "msgTypeOf data \<notin> {12, 63, 11, 100, 13, 31, 30, 34, 32, 61, 62}"
    by auto
  then show ?thesis
  proof cases
    case 1
    with assms show ?thesis by (auto simp: processMessage_def)
  next
    case 2
    with assms show ?thesis by (auto simp: processMessage_def split: if_splits)
  next
    case 3
    with assms obtain ok st1 where p: "parseCapabilities st data = Inr (ok, st1)"
      and r: "(if \<not> ok then Inr st1 else sendDeleteROSpec (computePowerIndices st1)) = Inr st'"
      by (auto simp: processMessage_def bindE_eq_Inr)
    have "rospecStarted st' = rospecStarted st1"
    proof (cases ok)
      case False
      with r show ?thesis by simp
    next
      case True
      with r have "sendDeleteROSpec (computePowerIndices st1) = Inr st'" by simp
      from senders_keep [of "computePowerIndices st1" st'] this
      show ?thesis by (simp add: computePowerIndices_def computePowerIndices_loop_rospecStarted)
    qed
    with parseCapabilities_rospecStarted [OF p] 3 show ?thesis by simp
  next
    case 4
    with assms show ?thesis by (auto simp: processMessage_def bindE_eq_Inr)
  next
    case 5
    with assms have "sendDeleteROSpec st = Inr st'"
      by (auto simp: processMessage_def bindE_eq_Inr)
    with senders_keep [of st st'] 5 show ?thesis by simp
  next
    case 6
    with assms have "sendAddROSpec st = Inr st'"
      by (auto simp: processMessage_def bindE_eq_Inr)
    with senders_keep [of st st'] 6 show ?thesis by simp
  next
    case 7
    with assms have "sendEnableROSpec st = Inr st'"
      by (auto simp: processMessage_def bindE_eq_Inr)
    with senders_keep [of st st'] 7 show ?thesis by simp
  next
    case 8
    with assms have "sendStartROSpec st = Inr st'"
      by (auto simp: processMessage_def bindE_eq_Inr)
    with senders_keep [of st st'] 8 show ?thesis by simp
  next
    case 9
    with assms have "bindE (checkResponse data) (\<lambda>ok.
             if ok then Inr (st\<lparr>rospecStarted := True, emitted := emitted st @ [Ready]\<rparr>)
             else Inr st) = Inr st'"
      by (simp add: processMessage_def)
    then obtain ok where c: "checkResponse data = Inr ok"
      and r: "(if ok then Inr (st\<lparr>rospecStarted := True, emitted := emitted st @ [Ready]\<rparr>)
               else Inr st) = (Inr st' :: error + reader)"
      unfolding bindE_eq_Inr by blast
    show ?thesis
    proof (cases ok)
      case True
      with r have "st' = st\<lparr>rospecStarted := True, emitted := emitted st @ [Ready]\<rparr>" by simp
      then have "rospecStarted st'" by simp
      with 9 c True show ?thesis by simp
    next
      case False
      with r have "st' = st" by simp
      with 9 c False show ?thesis by simp
    qed
  next
    case 10
    with assms show ?thesis
      by (auto simp: processMessage_def parseTagReport_rospecStarted)
  next
    case 11
    with assms have "sendKeepaliveAck st = Inr st'"
      by (auto simp: processMessage_def bindE_eq_Inr)
    with senders_keep [of st st'] 11 show ?thesis by simp
  next
    case 12
    with assms show ?thesis by (auto simp: processMessage_def)
  qed
qed

text \<open>
  Claim C2. While \<open>rospecStarted\<close> is false an RO_ACCESS_REPORT changes nothing, so it
  emits no observation. The flag turns true only when a START_ROSPEC_RESPONSE passes the
  status check, which then also holds, and no message turns it false again. While it is
  true, a report emits the observations of its TagReportData records in their order, one
  for each record in which the decoder finds a non-empty EPC, and changes nothing else.
\<close>

theorem buffered_tag_guard:
  "(\<not> rospecStarted st \<and> msgTypeOf data = 61 \<longrightarrow> processMessage st data = Inr st)
 \<and> (rospecStarted st \<and> msgTypeOf data = 61 \<longrightarrow>
       processMessage st data =
         Inr (st\<lparr>emitted := emitted st @ map Tag (observations (cfg st) data 10)\<rparr>)
     \<and> length (observations (cfg st) data 10) =
         length (filter (\<lambda>r. \<not> epcFalsy (parseTagReportData r)) (tagReportRecords data 10)))
 \<and> (msgTypeOf data = 32 \<and> checkResponse data = Inr True \<longrightarrow>
       processMessage st data =
         Inr (st\<lparr>rospecStarted := True, emitted := emitted st @ [Ready]\<rparr>))
 \<and> (processMessage st data = Inr st' \<longrightarrow>
       (rospecStarted st' \<longleftrightarrow>
          rospecStarted st \<or> (msgTypeOf data = 32 \<and> checkResponse data = Inr True)))"
proof (intro conjI impI)
  assume "\<not> rospecStarted st \<and> msgTypeOf data = 61"
  then show "processMessage st data = Inr st"
    by (simp add: processMessage_def parseTagReport_def)
next
  assume "rospecStarted st \<and> msgTypeOf data = 61"
  then show "processMessage st data =
         Inr (st\<lparr>emitted := emitted st @ map Tag (observations (cfg st) data 10)\<rparr>)"
    by (simp add: processMessage_def parseTagReport_def parseTagReport_loop_emits)
next
  show "length (observations (cfg st) data 10) =
         length (filter (\<lambda>r. \<not> epcFalsy (parseTagReportData r)) (tagReportRecords data 10))"
    by (simp add: observations_def filter_map comp_def)
next
  assume "msgTypeOf data = 32 \<and> checkResponse data = Inr True"
  then show "processMessage st data =
         Inr (st\<lparr>rospecStarted := True, emitted := emitted st @ [Ready]\<rparr>)"
    by (simp add: processMessage_def bindE_def)
next
  assume "processMessage st data = Inr st'"
  then show "rospecStarted st' \<longleftrightarrow>
          rospecStarted st \<or> (msgTypeOf data = 32 \<and> checkResponse data = Inr True)"
    by (rule processMessage_rospecStarted)
qed


lemma observations_reportS4:
  "observations CONFIG reportS4 10 =
     [\<lparr>epc = Some ''300A00010203040506070809'', antenna = Some 3, rssi = Some (- 40),
       timestamp = None, seenCount = None\<rparr>]"
  by (simp add: observations_def tagReportRecords_def paramOffsets.simps paramTypeAt_def
      withSoleAntenna_def epcFalsy_def antennaFalsy_def CONFIG_def reportS4_def tag_eval)

theorem buffered_tag_guard_witness:
  "msgTypeOf reportS4 = 61 \<and> msgTypeOf startRospecOk = 32
 \<and> \<not> rospecStarted connectedReader
 \<and> processMessage connectedReader reportS4 = Inr connectedReader
 \<and> checkResponse startRospecOk = Inr True
 \<and> processMessage connectedReader startRospecOk =
       Inr (connectedReader\<lparr>rospecStarted := True, emitted := [Connected, Ready]\<rparr>)
 \<and> processMessage (connectedReader\<lparr>rospecStarted := True, emitted := [Connected, Ready]\<rparr>)
       reportS4 =
       Inr (connectedReader\<lparr>rospecStarted := True,
              emitted := [Connected, Ready,
                Tag \<lparr>epc = Some ''300A00010203040506070809'', antenna = Some 3,
                     rssi = Some (- 40), timestamp = None, seenCount = None\<rparr>]\<rparr>)"
proof -
  let ?started = "connectedReader\<lparr>rospecStarted := True, emitted := [Connected, Ready]\<rparr>"
  have t1: "msgTypeOf reportS4 = 61"
    by (simp add: msgTypeOf_def byteAt_def reportS4_def)
  have t2: "msgTypeOf startRospecOk = 32"
    by (simp add: msgTypeOf_def byteAt_def startRospecOk_def)
  have n: "\<not> rospecStarted connectedReader" by (simp add: connectedReader_def)
  have c: "checkResponse startRospecOk = Inr True"
    by (simp add: checkResponse_eval startRospecOk_def)
  have e: "emitted connectedReader @ [Ready] = [Connected, Ready]"
    by (simp add: connectedReader_def)
  have g: "cfg ?started = CONFIG" "rospecStarted ?started" "emitted ?started = [Connected, Ready]"
    by (simp_all add: connectedReader_def)
  from buffered_tag_guard [of connectedReader reportS4] t1 n
  have a: "processMessage connectedReader reportS4 = Inr connectedReader" by blast
  from buffered_tag_guard [of connectedReader startRospecOk] t2 c
  have "processMessage connectedReader startRospecOk =
          Inr (connectedReader\<lparr>rospecStarted := True, emitted := emitted connectedReader @ [Ready]\<rparr>)"
    by blast
  then have b: "processMessage connectedReader startRospecOk = Inr ?started"
    unfolding e .
  from buffered_tag_guard [of ?started reportS4] t1 g(2)
  have "processMessage ?started reportS4 =
          Inr (?started\<lparr>emitted := emitted ?started @ map Tag (observations (cfg ?started) reportS4 10)\<rparr>)"
    by blast
  then have d: "processMessage ?started reportS4 =
       Inr (connectedReader\<lparr>rospecStarted := True,
              emitted := [Connected, Ready,
                Tag \<lparr>epc = Some ''300A00010203040506070809'', antenna = Some 3,
                     rssi = Some (- 40), timestamp = None, seenCount = None\<rparr>]\<rparr>)"
    unfolding g(1) g(3) observations_reportS4 by simp
  from t1 t2 n a c b d show ?thesis by blast
qed

section \<open>Properties of the receive loop\<close>

text \<open>
  Claim C4, as the code has it. The receive loop has no test of the length field against
  10. With ten bytes in the buffer and a length field \<open>L\<close> from 1 to 9 it cuts the first
  \<open>L\<close> bytes off as a message, hands them to \<open>processMessage\<close> and goes on with the
  rest of the buffer, which is \<open>L\<close> bytes shorter.
\<close>

theorem short_frame_is_delivered:
  assumes "10 \<le> length (buffer st)"
    and "1 \<le> u32be (buffer st) 2" and "u32be (buffer st) 2 < 10"
  shows "nextFrame (buffer st) =
           Some (take (u32be (buffer st) 2) (buffer st), drop (u32be (buffer st) 2) (buffer st))
       \<and> handleData_loop (Suc fuel) st =
           (case processMessage (st\<lparr>buffer := drop (u32be (buffer st) 2) (buffer st)\<rparr>)
                   (take (u32be (buffer st) 2) (buffer st)) of
              Inl e \<Rightarrow> Some (Inl e)
            | Inr st2 \<Rightarrow> handleData_loop fuel st2)
       \<and> length (take (u32be (buffer st) 2) (buffer st)) = u32be (buffer st) 2
       \<and> length (drop (u32be (buffer st) 2) (buffer st)) < length (buffer st)"
proof -
  have nf: "nextFrame (buffer st) =
           Some (take (u32be (buffer st) 2) (buffer st), drop (u32be (buffer st) 2) (buffer st))"
    using assms by (simp add: nextFrame_def Let_def slice_def)
  have hd: "handleData_loop (Suc fuel) st =
           (case processMessage (st\<lparr>buffer := drop (u32be (buffer st) 2) (buffer st)\<rparr>)
                   (take (u32be (buffer st) 2) (buffer st)) of
              Inl e \<Rightarrow> Some (Inl e)
            | Inr st2 \<Rightarrow> handleData_loop fuel st2)"
    by (simp only: handleData_loop_nextFrame nf option.case prod.case)
  from nf hd assms show ?thesis by simp
qed

theorem short_frame_is_delivered_witness:
  "10 \<le> length (buffer (connectedReader\<lparr>buffer := shortFrame\<rparr>))
 \<and> u32be (buffer (connectedReader\<lparr>buffer := shortFrame\<rparr>)) 2 = 5
 \<and> processMessage (connectedReader\<lparr>buffer := [0x05, 0x00, 0x00, 0x00, 0x01]\<rparr>)
       [0x04, 0x3F, 0x00, 0x00, 0x00] =
       Inr (connectedReader\<lparr>buffer := [0x05, 0x00, 0x00, 0x00, 0x01], configStarted := True\<rparr>)
 \<and> handleData_loop (Suc 1) (connectedReader\<lparr>buffer := shortFrame\<rparr>) =
       Some (Inr (connectedReader\<lparr>buffer := [0x05, 0x00, 0x00, 0x00, 0x01],
                                     configStarted := True\<rparr>))"
proof -
  let ?st = "connectedReader\<lparr>buffer := shortFrame\<rparr>"
  have b: "buffer ?st = shortFrame" by simp
  have l: "u32be shortFrame 2 = 5" by (simp add: shortFrame_def u32be_def u16be_def)
  have h: "10 \<le> length (buffer ?st)" "1 \<le> u32be (buffer ?st) 2" "u32be (buffer ?st) 2 < 10"
    unfolding b l by (simp_all add: shortFrame_def)
  have tk: "take 5 shortFrame = [0x04, 0x3F, 0x00, 0x00, 0x00]"
    and dr: "drop 5 shortFrame = [0x05, 0x00, 0x00, 0x00, 0x01]"
    by (simp_all add: shortFrame_def)
  have p: "processMessage (connectedReader\<lparr>buffer := [0x05, 0x00, 0x00, 0x00, 0x01]\<rparr>)
       [0x04, 0x3F, 0x00, 0x00, 0x00] =
       Inr (connectedReader\<lparr>buffer := [0x05, 0x00, 0x00, 0x00, 0x01], configStarted := True\<rparr>)"
    by (simp add: processMessage_def msgTypeOf_def byteAt_def connectedReader_def)
  have e: "handleData_loop 1 (connectedReader\<lparr>buffer := [0x05, 0x00, 0x00, 0x00, 0x01],
                                     configStarted := True\<rparr>) =
       Some (Inr (connectedReader\<lparr>buffer := [0x05, 0x00, 0x00, 0x00, 0x01],
                                     configStarted := True\<rparr>))"
    unfolding One_nat_def by (simp add: connectedReader_def)
  from short_frame_is_delivered [OF h, of 1]
  have "handleData_loop (Suc 1) ?st =
           (case processMessage (?st\<lparr>buffer := drop (u32be (buffer ?st) 2) (buffer ?st)\<rparr>)
                   (take (u32be (buffer ?st) 2) (buffer ?st)) of
              Inl e \<Rightarrow> Some (Inl e)
            | Inr st2 \<Rightarrow> handleData_loop 1 st2)"
    by blast
  then have r: "handleData_loop (Suc 1) ?st =
       Some (Inr (connectedReader\<lparr>buffer := [0x05, 0x00, 0x00, 0x00, 0x01],
                                     configStarted := True\<rparr>))"
    unfolding b l tk dr by (simp add: p e)
  from h(1) l p r show ?thesis by simp
qed

text \<open>
  The claim as written has the decoder fail with \<open>FrameLengthInvalid\<close> and the
  controller tear the connection down. On ten bytes whose length field is 5 the handler
  returns normally: the first five bytes were processed as a READER_EVENT_NOTIFICATION
  (\<open>configStarted\<close> is now set), the other five stay in the buffer, and the connection is
  as it was.
\<close>

theorem short_frame_counterexample:
  "length shortFrame = 10 \<and> u32be shortFrame 2 = 5
 \<and> handleData 2 connectedReader shortFrame =
       Some (Inr (connectedReader\<lparr>buffer := [0x05, 0x00, 0x00, 0x00, 0x01],
                                     configStarted := True\<rparr>))
 \<and> connected connectedReader \<and> \<not> configStarted connectedReader"
proof -
  have b: "buffer connectedReader @ shortFrame = shortFrame"
    by (simp add: connectedReader_def)
  have l: "u32be shortFrame 2 = 5" by (simp add: shortFrame_def u32be_def u16be_def)
  have nf: "nextFrame shortFrame =
              Some ([0x04, 0x3F, 0x00, 0x00, 0x00], [0x05, 0x00, 0x00, 0x00, 0x01])"
    unfolding nextFrame_def Let_def l by (simp add: shortFrame_def slice_def)
  have nf2: "nextFrame [0x05, 0x00, 0x00, 0x00, 0x01] = None"
    by (simp add: nextFrame_def)
  have p: "processMessage (connectedReader\<lparr>buffer := [0x05, 0x00, 0x00, 0x00, 0x01]\<rparr>)
       [0x04, 0x3F, 0x00, 0x00, 0x00] =
       Inr (connectedReader\<lparr>buffer := [0x05, 0x00, 0x00, 0x00, 0x01], configStarted := True\<rparr>)"
    by (simp add: processMessage_def msgTypeOf_def byteAt_def connectedReader_def)
  have "handleData_loop (Suc (Suc 0)) (connectedReader\<lparr>buffer := shortFrame\<rparr>) =
       Some (Inr (connectedReader\<lparr>buffer := [0x05, 0x00, 0x00, 0x00, 0x01],
                                     configStarted := True\<rparr>))"
    by (simp add: handleData_loop_nextFrame nf nf2 p del: handleData_loop.simps)
  then have r: "handleData 2 connectedReader shortFrame =
       Some (Inr (connectedReader\<lparr>buffer := [0x05, 0x00, 0x00, 0x00, 0x01],
                                     configStarted := True\<rparr>))"
    unfolding handleData_def b numeral_2_eq_2 .
  have c: "connected connectedReader" "\<not> configStarted connectedReader"
    by (simp_all add: connectedReader_def)
  have n: "length shortFrame = 10" by (simp add: shortFrame_def)
  from n l r c show ?thesis by blast
qed

text \<open>
  With the length field 0 a round of the loop consumes nothing and \<open>processMessage\<close>
  ignores the empty message, so no amount of fuel ends the loop.
\<close>

lemma zero_length_frame_never_returns:
  assumes "10 \<le> length (buffer st)" and "u32be (buffer st) 2 = 0"
  shows "handleData_loop fuel st = None"
proof (induction fuel)
  case 0
  show ?case by simp
next
  case (Suc fuel)
  have "processMessage st [] = Inr st"
    by (simp add: processMessage_def msgTypeOf_def byteAt_def)
  with assms Suc show ?case by (simp add: slice_def)
qed

section \<open>Properties of the ROSpec builder\<close>

lemma paramOffsets_bounds:
  "off \<in> set (paramOffsets d k) \<Longrightarrow> k \<le> off \<and> off + 4 \<le> length d"
proof (induction d k rule: paramOffsets.induct)
  case (1 data offset)
  let ?len = "u16be data (offset + 2)"
  show ?case
  proof (cases "offset + 4 \<le> length data \<and> \<not> (?len = 0 \<or> ?len > length data - offset)")
    case False
    then have "paramOffsets data offset = []"
      by (subst paramOffsets.simps) (auto simp: Let_def)
    with "1.prems" show ?thesis by simp
  next
    case True
    then have po: "paramOffsets data offset = offset # paramOffsets data (offset + ?len)"
      by (subst paramOffsets.simps) (auto simp: Let_def)
    from "1.prems" po have "off = offset \<or> off \<in> set (paramOffsets data (offset + ?len))"
      by simp
    then show ?thesis
    proof
      assume "off = offset"
      with True show ?thesis by simp
    next
      assume "off \<in> set (paramOffsets data (offset + ?len))"
      with "1.IH" [OF _ refl] True show ?thesis by auto
    qed
  qed
qed

lemma u16be_append: "off + 2 \<le> length d \<Longrightarrow> u16be (pre @ d) (length pre + off) = u16be d off"
  by (simp add: u16be_def nth_append)

lemma paramOffsets_append:
  "paramOffsets (pre @ d) (length pre + k) = map (\<lambda>off. length pre + off) (paramOffsets d k)"
proof (induction d k rule: paramOffsets.induct)
  case (1 data offset)
  let ?len = "u16be data (offset + 2)"
  show ?case
  proof (cases "offset + 4 \<le> length data")
    case False
    then have "paramOffsets data offset = []"
      by (subst paramOffsets.simps) simp
    moreover have "paramOffsets (pre @ data) (length pre + offset) = []"
      using False by (subst paramOffsets.simps) simp
    ultimately show ?thesis by simp
  next
    case True
    then have u: "u16be (pre @ data) (length pre + offset + 2) = ?len"
      using u16be_append [of "offset + 2" data pre] by (simp add: add.assoc)
    show ?thesis
    proof (cases "?len = 0 \<or> ?len > length data - offset")
      case stop: True
      then have "paramOffsets data offset = []"
        using True by (subst paramOffsets.simps) (auto simp: Let_def)
      moreover have "paramOffsets (pre @ data) (length pre + offset) = []"
        using True stop u by (subst paramOffsets.simps) (auto simp: Let_def)
      ultimately show ?thesis by simp
    next
      case go: False
      then have a: "paramOffsets data offset = offset # paramOffsets data (offset + ?len)"
        using True by (subst paramOffsets.simps) (auto simp: Let_def)
      have b: "paramOffsets (pre @ data) (length pre + offset)
               = (length pre + offset) # paramOffsets (pre @ data) (length pre + offset + ?len)"
        using True go u by (subst paramOffsets.simps) (auto simp: Let_def)
      from "1.IH" [OF True refl go]
      have "paramOffsets (pre @ data) (length pre + (offset + ?len))
              = map (\<lambda>off. length pre + off) (paramOffsets data (offset + ?len))" .
      with a b show ?thesis by (simp add: add.assoc)
    qed
  qed
qed

lemma params_append:
  "params (pre @ d) (length pre + k) = params d k"
proof -
  have "(paramTypeAt (pre @ d) (length pre + off),
          slice (pre @ d) (length pre + off + 4)
            (length pre + off + u16be (pre @ d) (length pre + off + 2)))
        = (paramTypeAt d off, slice d (off + 4) (off + u16be d (off + 2)))"
    if "off \<in> set (paramOffsets d k)" for off
  proof -
    from paramOffsets_bounds [OF that] have b: "off + 4 \<le> length d" by simp
    then have 1: "u16be (pre @ d) (length pre + off) = u16be d off"
      by (intro u16be_append) simp
    from b have 2: "u16be (pre @ d) (length pre + off + 2) = u16be d (off + 2)"
      using u16be_append [of "off + 2" d pre] by (simp add: add.assoc)
    show ?thesis
      unfolding paramTypeAt_def 1 2 by (simp add: slice_def add.assoc)
  qed
  then show ?thesis
    unfolding params_def paramOffsets_append by (simp add: comp_def add.assoc)
qed

lemma params_prefix: "length pre = n \<Longrightarrow> params (pre @ d) n = params d 0"
  using params_append [of pre d 0] by simp

lemma params_Nil: "params [] 0 = []"
  by (simp add: params_def paramOffsets.simps)


lemma nat_and_1023: "t < 1024 \<Longrightarrow> (t::nat) AND 1023 = t"
proof -
  assume t: "t < 1024"
  have "(1023::nat) = mask 10" by (simp add: mask_eq_exp_minus_1)
  then have "t AND 1023 = take_bit 10 t" by (simp add: take_bit_eq_mask)
  with t show ?thesis by (simp add: take_bit_nat_eq_self)
qed

lemma u16be_written:
  assumes "n < 65536"
  shows "u16be (of_nat (n div 256) # of_nat (n mod 256) # rest) 0 = n"
proof -
  have "n div 256 < 256" using assms by simp
  then have 1: "unat (of_nat (n div 256) :: byte) = n div 256" by (rule unat_of_nat_byte)
  have 2: "unat (of_nat (n mod 256) :: byte) = n mod 256" by (rule unat_of_nat_byte) simp
  show ?thesis by (simp add: u16be_def 1 2)
qed

lemma length_tlvBytes: "length (tlvBytes t v) = 4 + length v"
  by (simp add: tlvBytes_def)

lemma params_tlv:
  assumes "t < 1024" and "4 + length v < 65536"
  shows "params (tlvBytes t v @ rest) 0 = (t, v) # params rest 0"
proof -
  let ?d = "tlvBytes t v @ rest"
  let ?L = "4 + length v"
  have ty: "u16be ?d 0 = t"
    using u16be_written [of t] assms(1) by (simp add: tlvBytes_def)
  have "u16be (drop 2 ?d) 0 = ?L"
    using u16be_written [OF assms(2)] by (simp add: tlvBytes_def)
  then have len: "u16be ?d 2 = ?L"
    by (simp add: u16be_def tlvBytes_def numeral_2_eq_2 numeral_3_eq_3)
  from len have len': "u16be ?d (Suc (Suc 0)) = ?L" by (simp add: numeral_2_eq_2)
  have po: "paramOffsets ?d 0 = 0 # paramOffsets ?d ?L"
    by (subst paramOffsets.simps) (simp add: len' Let_def length_tlvBytes)
  have rest: "params ?d ?L = params rest 0"
    using params_append [of "tlvBytes t v" rest 0] by (simp add: length_tlvBytes)
  have hd: "paramTypeAt ?d 0 = t"
    unfolding paramTypeAt_def ty using assms(1) by (rule nat_and_1023)
  have val: "slice ?d 4 ?L = v"
    by (simp add: slice_def tlvBytes_def)
  have "params ?d 0 = (paramTypeAt ?d 0, slice ?d (0 + 4) (0 + u16be ?d (0 + 2))) # params ?d ?L"
    unfolding params_def po by simp
  then show ?thesis unfolding rest by (simp add: hd val len')
qed

lemma writeUInt16BE_Inr:
  "writeUInt16BE n = Inr b \<longleftrightarrow> n < 65536 \<and> b = [of_nat (n div 256), of_nat (n mod 256)]"
  by (auto simp: writeUInt16BE_def)

lemma tlv_Inr:
  "tlv t v = Inr b \<longleftrightarrow> t < 65536 \<and> 4 + length v < 65536 \<and> b = tlvBytes t v"
  by (auto simp: tlv_def bindE_eq_Inr writeUInt16BE_Inr tlvBytes_def)

lemma mapE_Inr:
  "mapE f xs = Inr ys \<Longrightarrow> list_all2 (\<lambda>x y. f x = Inr y) xs ys"
proof (induction xs arbitrary: ys)
  case Nil
  then show ?case by simp
next
  case (Cons x xs)
  from Cons.prems obtain y ys' where "f x = Inr y" "mapE f xs = Inr ys'" "ys = y # ys'"
    by (auto simp: bindE_eq_Inr)
  with Cons.IH show ?case by simp
qed


lemma rfTransmitter_bytes:
  "rfTransmitter st p = Inr b \<Longrightarrow>
     b = tlvBytes 224 [of_nat (hopTableId st div 256), of_nat (hopTableId st mod 256), 0, 0,
                       of_nat (p div 256), of_nat (p mod 256)]"
  by (auto simp: rfTransmitter_def bindE_eq_Inr writeUInt16BE_Inr tlv_Inr)

lemma rfTransmitter_Inr:
  assumes "rfTransmitter st p = Inr b"
  shows "\<exists>v. length v = 6 \<and> b = tlvBytes 224 v"
proof -
  have "length [of_nat (hopTableId st div 256), of_nat (hopTableId st mod 256), 0, 0,
                of_nat (p div 256), of_nat (p mod 256) :: byte] = 6" by simp
  with rfTransmitter_bytes [OF assms] show ?thesis by blast
qed

lemma antennaConfiguration_Inr:
  assumes "antennaConfiguration st a = Inr c"
  shows "\<exists>v. a < 65536 \<and> length v = 6
           \<and> c = tlvBytes 222 ([of_nat (a div 256), of_nat (a mod 256)] @ tlvBytes 224 v)"
proof -
  from assms obtain antId p rfTx where
    1: "writeUInt16BE a = Inr antId" and 2: "rfTransmitter st p = Inr rfTx"
    and 3: "tlv 222 (antId @ rfTx) = Inr c"
    unfolding antennaConfiguration_def Let_def bindE_eq_Inr by blast
  from rfTransmitter_Inr [OF 2] obtain v where v: "length v = 6" "rfTx = tlvBytes 224 v"
    by blast
  from 1 have a: "a < 65536" "antId = [of_nat (a div 256), of_nat (a mod 256)]"
    by (simp_all add: writeUInt16BE_Inr)
  from 3 have "c = tlvBytes 222 (antId @ rfTx)" by (simp add: tlv_Inr)
  with a v show ?thesis by blast
qed

lemma params_antennaConfigurations:
  assumes "list_all2 (\<lambda>a c. antennaConfiguration st a = Inr c) ants confs"
  shows "map (\<lambda>p. (fst p, u16be (snd p) 0, map fst (params (snd p) 2)))
           (params (concat confs) 0)
         = map (\<lambda>a. (222, a, [224])) ants"
  using assms
proof (induction ants confs rule: list_all2_induct)
  case Nil
  show ?case by (simp add: params_Nil)
next
  case (Cons a ants c confs)
  from antennaConfiguration_Inr [OF Cons.hyps(1)] obtain v where
    a: "a < 65536" and v: "length v = 6"
    and c: "c = tlvBytes 222 ([of_nat (a div 256), of_nat (a mod 256)] @ tlvBytes 224 v)"
    by blast
  let ?body = "[of_nat (a div 256), of_nat (a mod 256)] @ tlvBytes 224 v :: bytes"
  have "params (c @ concat confs) 0 = (222, ?body) # params (concat confs) 0"
    unfolding c by (rule params_tlv) (simp_all add: length_tlvBytes v)
  moreover have "u16be ?body 0 = a"
    using u16be_written [OF a] by simp
  moreover have "params ?body 2 = [(224, v)]"
  proof -
    have "params ?body 2 = params (tlvBytes 224 v @ []) 0"
      using params_prefix [of "[of_nat (a div 256), of_nat (a mod 256)]" 2 "tlvBytes 224 v"]
      by simp
    also have "\<dots> = (224, v) # params [] 0"
      by (rule params_tlv) (simp_all add: v)
    finally show ?thesis by (simp add: params_Nil)
  qed
  ultimately show ?case using Cons.IH by simp
qed


lemma stopTriggerTLV_Inr:
  "stopTriggerTLV t 0 0 = Inr b \<Longrightarrow> b = tlvBytes t [0, 0, 0, 0, 0]"
  by (auto simp: stopTriggerTLV_def bindE_eq_Inr writeUInt8_def writeUInt32BE_def tlv_Inr)

lemma mapE_writeUInt16BE_length:
  "mapE writeUInt16BE xs = Inr ys \<Longrightarrow> length (concat ys) = 2 * length xs"
proof (induction xs arbitrary: ys)
  case Nil
  then show ?case by simp
next
  case (Cons x xs)
  from Cons.prems obtain y ys' where "writeUInt16BE x = Inr y" "mapE writeUInt16BE xs = Inr ys'"
    "ys = y # ys'"
    by (auto simp: bindE_eq_Inr)
  with Cons.IH [of ys'] show ?case by (auto simp: writeUInt16BE_Inr)
qed

text \<open>
  Claim C9. Whenever \<open>buildROSpec\<close> returns, its bytes are one ROSpec parameter (177)
  whose value holds, after six bytes, a ROBoundarySpec (178), an AISpec (183) and a
  ROReportSpec (237). The AISpec holds, after the antenna list, a stop trigger (184) and
  an InventoryParameterSpec (186), which holds, after three bytes, one
  AntennaConfiguration (222) for each configured antenna, in order, with that antenna's
  ID and exactly one parameter after it, an RFTransmitter (224): no
  C1G2InventoryCommand (330). The ROReportSpec holds, after three bytes, a
  TagReportContentSelector (238) whose value is the two bytes 00 00.
\<close>

theorem buildROSpec_structure:
  assumes "buildROSpec st = Inr bs"
  shows "\<exists>ro boundary ai report stop inv.
       params bs 0 = [(177, ro)]
     \<and> params ro 6 = [(178, boundary), (183, ai), (237, report)]
     \<and> params ai (2 + 2 * length (antennas (cfg st))) = [(184, stop), (186, inv)]
     \<and> map (\<lambda>p. (fst p, u16be (snd p) 0, map fst (params (snd p) 2))) (params inv 3)
         = map (\<lambda>a. (222, a, [224])) (antennas (cfg st))
     \<and> (\<forall>p \<in> set (params inv 3). 330 \<notin> set (map fst (params (snd p) 2)))
     \<and> params report 3 = [(238, [0x00, 0x00])]"
proof -
  let ?ants = "antennas (cfg st)"
  from assms obtain f0 f4 f5 roStartTrigger roStopTrigger roBoundary antennaCount
    antennaIdList aiStopTrigger invParamSpec aiSpec tagReportContentSelector r0 r1 roReportSpec
    where f: "writeUInt32BE 1 = Inr f0" "writeUInt8 0 = Inr f4" "writeUInt8 0 = Inr f5"
    and b1: "tlv 179 [0x00] = Inr roStartTrigger"
    and b2: "stopTriggerTLV 182 0 0 = Inr roStopTrigger"
    and b3: "tlv 178 (roStartTrigger @ roStopTrigger) = Inr roBoundary"
    and a1: "writeUInt16BE (length ?ants) = Inr antennaCount"
    and a2: "mapE writeUInt16BE ?ants = Inr antennaIdList"
    and a3: "stopTriggerTLV 184 0 0 = Inr aiStopTrigger"
    and a4: "inventoryParameterSpecWithAntennas st ?ants = Inr invParamSpec"
    and a5: "tlv 183 ((antennaCount @ concat antennaIdList) @ aiStopTrigger @ invParamSpec)
               = Inr aiSpec"
    and r: "tlv 238 [0x00, 0x00] = Inr tagReportContentSelector"
      "writeUInt8 0x01 = Inr r0" "writeUInt16BE 1 = Inr r1"
      "tlv 237 ((r0 @ r1) @ tagReportContentSelector) = Inr roReportSpec"
    and top: "tlv 177 ((f0 @ f4 @ f5) @ roBoundary @ aiSpec @ roReportSpec) = Inr bs"
    unfolding buildROSpec_def bindE_eq_Inr by blast
  from a4 obtain hdr0 hdr2 confs where
    i1: "writeUInt16BE 1 = Inr hdr0" "writeUInt8 1 = Inr hdr2"
    and i2: "mapE (antennaConfiguration st) ?ants = Inr confs"
    and i3: "tlv 186 ((hdr0 @ hdr2) @ concat confs) = Inr invParamSpec"
    unfolding inventoryParameterSpecWithAntennas_def bindE_eq_Inr by blast
  define ro where "ro = (f0 @ f4 @ f5) @ roBoundary @ aiSpec @ roReportSpec"
  define boundary where "boundary = roStartTrigger @ roStopTrigger"
  define ai where "ai = (antennaCount @ concat antennaIdList) @ aiStopTrigger @ invParamSpec"
  define report where "report = (r0 @ r1) @ tagReportContentSelector"
  define inv where "inv = (hdr0 @ hdr2) @ concat confs"
  have lf: "length (f0 @ f4 @ f5) = 6"
    using f by (auto simp: writeUInt32BE_def writeUInt8_def)
  have lr: "length (r0 @ r1) = 3"
    using r(2,3) by (auto simp: writeUInt8_def writeUInt16BE_Inr)
  have lh: "length (hdr0 @ hdr2) = 3"
    using i1 by (auto simp: writeUInt8_def writeUInt16BE_Inr)
  have la: "length (antennaCount @ concat antennaIdList) = 2 + 2 * length ?ants"
    using a1 mapE_writeUInt16BE_length [OF a2] by (auto simp: writeUInt16BE_Inr)
  from top have t: "bs = tlvBytes 177 ro" "4 + length ro < 65536"
    by (simp_all add: tlv_Inr ro_def)
  from b3 have tb: "roBoundary = tlvBytes 178 boundary" "4 + length boundary < 65536"
    by (simp_all add: tlv_Inr boundary_def)
  from a5 have ta: "aiSpec = tlvBytes 183 ai" "4 + length ai < 65536"
    by (simp_all add: tlv_Inr ai_def)
  from r(4) have tr: "roReportSpec = tlvBytes 237 report" "4 + length report < 65536"
    by (simp_all add: tlv_Inr report_def)
  from i3 have ti: "invParamSpec = tlvBytes 186 inv" "4 + length inv < 65536"
    by (simp_all add: tlv_Inr inv_def)
  from a3 have ts: "aiStopTrigger = tlvBytes 184 [0, 0, 0, 0, 0]"
    by (rule stopTriggerTLV_Inr)
  from r(1) have tc: "tagReportContentSelector = tlvBytes 238 [0x00, 0x00]"
    by (simp add: tlv_Inr)
  have p1: "params bs 0 = [(177, ro)]"
  proof -
    have "params (tlvBytes 177 ro @ []) 0 = (177, ro) # params [] 0"
      by (rule params_tlv) (simp_all add: t(2))
    then show ?thesis by (simp add: t(1) params_Nil)
  qed
  have p2: "params ro 6 = [(178, boundary), (183, ai), (237, report)]"
  proof -
    have "params ro 6 = params (roBoundary @ aiSpec @ roReportSpec) 0"
      unfolding ro_def by (rule params_prefix) (rule lf)
    also have "\<dots> = (178, boundary) # params (aiSpec @ roReportSpec) 0"
      unfolding tb(1) by (rule params_tlv) (simp_all add: tb(2))
    also have "params (aiSpec @ roReportSpec) 0 = (183, ai) # params roReportSpec 0"
      unfolding ta(1) by (rule params_tlv) (simp_all add: ta(2))
    also have "params roReportSpec 0 = (237, report) # params [] 0"
      using params_tlv [of 237 report "[]"] tr by simp
    finally show ?thesis by (simp add: params_Nil)
  qed
  have p3: "params ai (2 + 2 * length ?ants) = [(184, [0, 0, 0, 0, 0]), (186, inv)]"
  proof -
    have "params ai (2 + 2 * length ?ants) = params (aiStopTrigger @ invParamSpec) 0"
      unfolding ai_def by (rule params_prefix) (rule la)
    also have "\<dots> = (184, [0, 0, 0, 0, 0]) # params invParamSpec 0"
      unfolding ts by (rule params_tlv) simp_all
    also have "params invParamSpec 0 = (186, inv) # params [] 0"
      using params_tlv [of 186 inv "[]"] ti by simp
    finally show ?thesis by (simp add: params_Nil)
  qed
  have p4i: "params inv 3 = params (concat confs) 0"
    unfolding inv_def by (rule params_prefix) (rule lh)
  have p4: "map (\<lambda>p. (fst p, u16be (snd p) 0, map fst (params (snd p) 2))) (params inv 3)
         = map (\<lambda>a. (222, a, [224])) ?ants"
    unfolding p4i by (rule params_antennaConfigurations) (rule mapE_Inr [OF i2])
  have p5: "\<forall>p \<in> set (params inv 3). 330 \<notin> set (map fst (params (snd p) 2))"
  proof
    fix p assume "p \<in> set (params inv 3)"
    then have "(fst p, u16be (snd p) 0, map fst (params (snd p) 2))
               \<in> set (map (\<lambda>a. (222, a, [224])) ?ants)"
      unfolding p4 [symmetric] by simp
    then have "map fst (params (snd p) 2) = [224]" by auto
    then show "330 \<notin> set (map fst (params (snd p) 2))" by simp
  qed
  have p6: "params report 3 = [(238, [0x00, 0x00])]"
  proof -
    have "params report 3 = params tagReportContentSelector 0"
      using params_prefix [OF lr, of tagReportContentSelector] by (simp add: report_def)
    also have "\<dots> = (238, [0x00, 0x00]) # params [] 0"
      using params_tlv [of 238 "[0x00, 0x00]" "[]"] tc by simp
    finally show ?thesis by (simp add: params_Nil)
  qed
  from p1 p2 p3 p4 p5 p6 show ?thesis by blast
qed

lemmas rospec_eval =
  buildROSpec_def inventoryParameterSpecWithAntennas_def antennaConfiguration_def
  rfTransmitter_def stopTriggerTLV_def tlv_def writeUInt8_def writeUInt16BE_def
  writeUInt32BE_def bindE_def Let_def

lemma buildROSpec_configuredReader: "buildROSpec configuredReader = Inr rospecS1"
  by (simp add: rospec_eval configuredReader_def connectedReader_def CONFIG_def rospecS1_def)


lemma configuredReader_reached:
  "bindE (parseCapabilities connectedReader capabilitiesResponse)
     (\<lambda>(ok, s). Inr (computePowerIndices s)) = Inr configuredReader"
  unfolding parse_capabilitiesResponse
  by (simp add: bindE_def computePowerIndices_def findClosestPowerIndex_def desiredDbmOf_def
      configuredReader_def connectedReader_def CONFIG_def double_eval)

theorem buildROSpec_structure_witness:
  "buildROSpec configuredReader = Inr rospecS1
 \<and> antennas (cfg configuredReader) = [1]
 \<and> (\<exists>ro boundary ai report stop inv.
       params rospecS1 0 = [(177, ro)]
     \<and> params ro 6 = [(178, boundary), (183, ai), (237, report)]
     \<and> params ai (2 + 2 * length (antennas (cfg configuredReader))) = [(184, stop), (186, inv)]
     \<and> map (\<lambda>p. (fst p, u16be (snd p) 0, map fst (params (snd p) 2))) (params inv 3)
         = [(222, 1, [224])]
     \<and> params report 3 = [(238, [0x00, 0x00])])"
proof -
  have a: "antennas (cfg configuredReader) = [1]"
    by (simp add: configuredReader_def connectedReader_def CONFIG_def)
  from buildROSpec_structure [OF buildROSpec_configuredReader]
  obtain ro boundary ai report stop inv where
    "params rospecS1 0 = [(177, ro)]"
    "params ro 6 = [(178, boundary), (183, ai), (237, report)]"
    "params ai (2 + 2 * length (antennas (cfg configuredReader))) = [(184, stop), (186, inv)]"
    "map (\<lambda>p. (fst p, u16be (snd p) 0, map fst (params (snd p) 2))) (params inv 3)
         = map (\<lambda>a. (222, a, [224])) (antennas (cfg configuredReader))"
    "params report 3 = [(238, [0x00, 0x00])]"
    by blast
  then have "\<exists>ro boundary ai report stop inv.
       params rospecS1 0 = [(177, ro)]
     \<and> params ro 6 = [(178, boundary), (183, ai), (237, report)]
     \<and> params ai (2 + 2 * length (antennas (cfg configuredReader))) = [(184, stop), (186, inv)]
     \<and> map (\<lambda>p. (fst p, u16be (snd p) 0, map fst (params (snd p) 2))) (params inv 3)
         = [(222, 1, [224])]
     \<and> params report 3 = [(238, [0x00, 0x00])]"
    unfolding a by (intro exI [of _ ro] exI [of _ boundary] exI [of _ ai] exI [of _ report]
        exI [of _ stop] exI [of _ inv]) simp
  with buildROSpec_configuredReader a show ?thesis by blast
qed


lemma antennaConfiguration_returns:
  assumes "a < 65536" and "hopTableId st < 65536" and "powerIndexFor st a < 65536"
  shows "\<exists>c. antennaConfiguration st a = Inr c \<and> length c = 16"
  using assms
  unfolding antennaConfiguration_def powerIndexFor_def [symmetric] Let_def
  by (simp add: rfTransmitter_def tlv_def writeUInt16BE_def bindE_def)

lemma mapE_returns:
  assumes "\<forall>x \<in> set xs. \<exists>y. f x = Inr y \<and> length y = k"
  shows "\<exists>ys. mapE f xs = Inr ys \<and> length (concat ys) = k * length xs"
  using assms
proof (induction xs)
  case Nil
  show ?case by simp
next
  case (Cons x xs)
  from Cons.prems obtain y where y: "f x = Inr y" "length y = k" by auto
  from Cons obtain ys where ys: "mapE f xs = Inr ys" "length (concat ys) = k * length xs"
    by auto
  have "mapE f (x # xs) = Inr (y # ys)" by (simp add: y ys bindE_def)
  moreover have "length (concat (y # ys)) = k * length (x # xs)" by (simp add: y ys)
  ultimately show ?case by blast
qed

lemma buildROSpec_returns:
  assumes "hopTableId st < 65536"
    and "\<forall>a \<in> set (antennas (cfg st)). a < 65536 \<and> powerIndexFor st a < 65536"
    and "length (antennas (cfg st)) \<le> 3637"
  shows "\<exists>bs. buildROSpec st = Inr bs"
proof -
  let ?ants = "antennas (cfg st)"
  have "\<forall>a \<in> set ?ants. \<exists>y. writeUInt16BE a = Inr y \<and> length y = 2"
    using assms(2) by (simp add: writeUInt16BE_def)
  from mapE_returns [OF this] obtain ids where
    ids: "mapE writeUInt16BE ?ants = Inr ids" "length (concat ids) = 2 * length ?ants"
    by blast
  have "\<forall>a \<in> set ?ants. \<exists>c. antennaConfiguration st a = Inr c \<and> length c = 16"
    using assms(1,2) by (simp add: antennaConfiguration_returns)
  from mapE_returns [OF this] obtain confs where
    confs: "mapE (antennaConfiguration st) ?ants = Inr confs"
      "length (concat confs) = 16 * length ?ants"
    by blast
  show ?thesis
    using assms(3)
    by (simp add: buildROSpec_def inventoryParameterSpecWithAntennas_def stopTriggerTLV_def
        tlv_def writeUInt8_def writeUInt16BE_def writeUInt32BE_def bindE_def ids confs)
qed

end
